theory Spec2Isabelle
  imports Complex_Main
begin

unbundle bit_operations_syntax

section \<open>The Duck Machine DM2019W CPU (cpu.py)\<close>

subsection \<open>Collaborators imported by cpu.py\<close>

text \<open>
  cpu.py imports \<^verbatim>\<open>Instruction\<close>, \<^verbatim>\<open>OpCode\<close>, \<^verbatim>\<open>CondFlag\<close> and \<^verbatim>\<open>decode\<close> from
  \<^verbatim>\<open>instr_format\<close>, \<^verbatim>\<open>Memory\<close> from \<^verbatim>\<open>memory\<close>, \<^verbatim>\<open>Register\<close> and \<^verbatim>\<open>ZeroRegister\<close>
  from \<^verbatim>\<open>register\<close>, and \<^verbatim>\<open>MVCEvent\<close>, \<^verbatim>\<open>MVCListenable\<close> from \<^verbatim>\<open>mvc\<close>. None of these
  modules is part of the sources; their types are modelled from the specification's data
  model and interface sections, and what the specification leaves open (the bit values of
  the condition flags, the instruction word layout) is a parameter of the model.
\<close>

text \<open>Python exceptions that can leave the code of cpu.py.\<close>

datatype error =
    ZeroDivisionError
  | IndexError
  | AddressError
  | DecodeError
  | TypeError

text \<open>
  Modelled from the spec: the enumeration \<^verbatim>\<open>instr_format.OpCode\<close>, "closed enumeration:
  ADD, SUB, MUL, DIV, LOAD, STORE, HALT". These are also exactly the keys of
  \<^verbatim>\<open>ALU.ALU_OPS\<close>.
\<close>

datatype OpCode = ADD | SUB | MUL | DIV | LOAD | STORE | HALT

text \<open>
  Modelled from the spec: the flag enumeration \<^verbatim>\<open>instr_format.CondFlag\<close>, a "bit-flag
  enumeration"; "flags are combined and tested via bitwise AND; a nonzero AND means
  satisfied". A flag value is its bit pattern. The bit patterns of the named members
  are not given anywhere, so they are fields of the parameter \<open>instr_format\<close> below.
\<close>

type_synonym CondFlag = nat

text \<open>
  Modelled from the spec: the class \<^verbatim>\<open>instr_format.Instruction\<close>, "decoded fields:
  operation code, required condition mask, target register index, source-register-1
  index, source-register-2 index, signed immediate offset". The field names are the ones
  cpu.py reads. Register indices are Python integers.
\<close>

record Instruction =
  op :: OpCode
  cond :: CondFlag
  reg_target :: int
  reg_src1 :: int
  reg_src2 :: int
  offset :: int

text \<open>
  The module \<^verbatim>\<open>instr_format\<close> as a parameter: the members of \<^verbatim>\<open>CondFlag\<close> that cpu.py
  names, and \<^verbatim>\<open>decode\<close>, which is pure and fails on a malformed word (\<open>None\<close>).
\<close>

record instr_format =
  CondFlag_ALWAYS :: CondFlag
  CondFlag_M :: CondFlag
  CondFlag_Z :: CondFlag
  CondFlag_P :: CondFlag
  CondFlag_V :: CondFlag
  decode :: "int \<Rightarrow> Instruction option"

text \<open>
  Modelled from the spec: the classes \<^verbatim>\<open>register.Register\<close> and
  \<^verbatim>\<open>register.ZeroRegister\<close>: "a single mutable signed-integer cell with get/put. A
  distinguished variant always reads zero and silently discards writes".
\<close>

datatype Register = Register int | ZeroRegister

fun Register_get :: "Register \<Rightarrow> int" where
  "Register_get (Register v) = v"
| "Register_get ZeroRegister = 0"

fun Register_put :: "Register \<Rightarrow> int \<Rightarrow> Register" where
  "Register_put (Register _) v = Register v"
| "Register_put ZeroRegister v = ZeroRegister"

text \<open>
  Modelled from the spec: the class \<^verbatim>\<open>memory.Memory\<close>: "get(address) -> integer,
  put(address, value) -> void. Must fail with an address-range error for invalid
  addresses". A memory is a partial map whose domain is the set of valid addresses;
  \<open>put\<close> never changes that domain.
\<close>

type_synonym Memory = "int \<rightharpoonup> int"

definition Memory_get :: "Memory \<Rightarrow> int \<Rightarrow> error + int" where
  "Memory_get m addr = (case m addr of None \<Rightarrow> Inl AddressError | Some v \<Rightarrow> Inr v)"

definition Memory_put :: "Memory \<Rightarrow> int \<Rightarrow> int \<Rightarrow> error + Memory" where
  "Memory_put m addr val =
     (case m addr of None \<Rightarrow> Inl AddressError | Some _ \<Rightarrow> Inr (m(addr \<mapsto> val)))"

text \<open>
  Subscripting a Python list: a negative index counts from the end, an index out of
  range raises IndexError. The result is the position that is read or written.
\<close>

definition subscript :: "'a list \<Rightarrow> int \<Rightarrow> error + nat" where
  "subscript xs i =
     (if 0 \<le> i \<and> i < int (length xs) then Inr (nat i)
      else if - int (length xs) \<le> i \<and> i < 0 then Inr (nat (int (length xs) + i))
      else Inl IndexError)"

subsection \<open>class ALU\<close>

text \<open>
  \<^verbatim>\<open>ALU_OPS\<close>: the table of two-argument functions, one per operation code. Python's
  \<^verbatim>\<open>//\<close> raises ZeroDivisionError on a zero divisor; on integers it is \<open>div\<close>.
\<close>

fun ALU_OPS :: "OpCode \<Rightarrow> int \<Rightarrow> int \<Rightarrow> error + int" where
  "ALU_OPS ADD x y = Inr (x + y)"
| "ALU_OPS SUB x y = Inr (x - y)"
| "ALU_OPS MUL x y = Inr (x * y)"
| "ALU_OPS DIV x y = (if y = 0 then Inl ZeroDivisionError else Inr (x div y))"
| "ALU_OPS LOAD x y = Inr (x + y)"
| "ALU_OPS STORE x y = Inr (x + y)"
| "ALU_OPS HALT x y = Inr 0"

text \<open>
  \<^verbatim>\<open>ALU.exec\<close>. The bare \<^verbatim>\<open>except:\<close> turns every exception of the \<^verbatim>\<open>try\<close> block into
  \<open>(0, V)\<close>. The \<^verbatim>\<open>if/elif/elif\<close> chain has no \<^verbatim>\<open>else\<close>: falling through it would
  return Python's \<^verbatim>\<open>None\<close>, which is the result \<open>None\<close> here.
\<close>

definition exec :: "instr_format \<Rightarrow> OpCode \<Rightarrow> int \<Rightarrow> int \<Rightarrow> (int \<times> CondFlag) option" where
  "exec fmt opc in1 in2 =
     (case ALU_OPS opc in1 in2 of
        Inl e \<Rightarrow> Some (0, CondFlag_V fmt)
      | Inr result \<Rightarrow>
          if result < 0 then Some (result, CondFlag_M fmt)
          else if result = 0 then Some (result, CondFlag_Z fmt)
          else if result > 0 then Some (result, CondFlag_P fmt)
          else None)"

subsection \<open>class CPUStep and class CPU\<close>

text \<open>
  The fields of a CPU that \<^verbatim>\<open>__init__\<close> creates: the connected memory, the sixteen
  registers, the condition flag and the halted flag. \<^verbatim>\<open>self.pc\<close> is the object
  \<^verbatim>\<open>self.registers[15]\<close> and \<^verbatim>\<open>self.alu\<close> has no state, so neither is a field here.
\<close>

record CPU_view =
  memory :: Memory
  registers :: "Register list"
  condition :: CondFlag
  halted :: bool

text \<open>
  \<^verbatim>\<open>CPUStep\<close>: the event of one cycle. Its \<^verbatim>\<open>subject\<close> is a reference to the CPU, through
  which a listener reads the CPU at the moment it is notified; the event records that
  view.
\<close>

record CPUStep =
  subject :: CPU_view
  pc_addr :: int
  instr_word :: int
  instr :: Instruction

text \<open>
  Modelled from the spec: the notification channel of \<^verbatim>\<open>mvc.MVCListenable\<close>, the base class
  of \<^verbatim>\<open>CPU\<close>: "zero or more registered listeners receive a step-event value once per
  cycle; publishing must not itself mutate CPU state or affect subsequent execution".
  The field \<open>notified\<close> is the sequence of events the listeners have received so far.
\<close>

record CPU = CPU_view +
  notified :: "CPUStep list"

definition notify_all :: "CPUStep \<Rightarrow> CPU \<Rightarrow> CPU" where
  "notify_all event s = s\<lparr>notified := notified s @ [event]\<rparr>"

text \<open>\<^verbatim>\<open>CPU.__init__\<close>; a fresh \<^verbatim>\<open>Register()\<close> holds zero.\<close>

definition CPU_init :: "instr_format \<Rightarrow> Memory \<Rightarrow> CPU" where
  "CPU_init fmt mem =
     \<lparr>memory = mem,
      registers = [ZeroRegister, Register 0, Register 0, Register 0,
                   Register 0, Register 0, Register 0, Register 0,
                   Register 0, Register 0, Register 0, Register 0,
                   Register 0, Register 0, Register 0, Register 0],
      condition = CondFlag_ALWAYS fmt,
      halted = False,
      notified = []\<rparr>"

text \<open>\<^verbatim>\<open>self.pc.get()\<close> and \<^verbatim>\<open>self.pc.put(v)\<close>, on the register object at position 15.\<close>

definition pc_get :: "CPU \<Rightarrow> int" where
  "pc_get s = Register_get (registers s ! 15)"

definition reg_put :: "nat \<Rightarrow> int \<Rightarrow> CPU \<Rightarrow> CPU" where
  "reg_put k v s = s\<lparr>registers := (registers s)[k := Register_put (registers s ! k) v]\<rparr>"

definition pc_put :: "int \<Rightarrow> CPU \<Rightarrow> CPU" where
  "pc_put v s = reg_put 15 v s"

text \<open>
  A statement of \<^verbatim>\<open>step\<close> either completes (\<open>None\<close>) or raises (\<open>Some e\<close>); in both cases
  it leaves a CPU behind. \<open>then_do\<close> runs the next statement unless the previous one raised.
\<close>

type_synonym outcome = "error option \<times> CPU"

definition then_do :: "outcome \<Rightarrow> (CPU \<Rightarrow> outcome) \<Rightarrow> outcome" where
  "then_do r f = (case r of (None, s) \<Rightarrow> f s | (Some e, s) \<Rightarrow> (Some e, s))"

text \<open>The four \<^verbatim>\<open>if instr.op == ...\<close> statements at the end of the satisfied branch.\<close>

definition if_STORE :: "Instruction \<Rightarrow> int \<Rightarrow> CPU \<Rightarrow> outcome" where
  "if_STORE ins result_val s =
     (if op ins = STORE then
        (case subscript (registers s) (reg_target ins) of
           Inl e \<Rightarrow> (Some e, s)
         | Inr t \<Rightarrow>
            (case Memory_put (memory s) result_val (Register_get (registers s ! t)) of
               Inl e \<Rightarrow> (Some e, s)
             | Inr m \<Rightarrow> (None, s\<lparr>memory := m\<rparr>)))
      else (None, s))"

definition if_LOAD :: "Instruction \<Rightarrow> int \<Rightarrow> CPU \<Rightarrow> outcome" where
  "if_LOAD ins result_val s =
     (if op ins = LOAD then
        (case subscript (registers s) (reg_target ins) of
           Inl e \<Rightarrow> (Some e, s)
         | Inr t \<Rightarrow>
            (case Memory_get (memory s) result_val of
               Inl e \<Rightarrow> (Some e, s)
             | Inr v \<Rightarrow> (None, reg_put t v s)))
      else (None, s))"

definition if_HALT :: "Instruction \<Rightarrow> CPU \<Rightarrow> outcome" where
  "if_HALT ins s = (if op ins = HALT then (None, s\<lparr>halted := True\<rparr>) else (None, s))"

definition if_arith :: "Instruction \<Rightarrow> int \<Rightarrow> CondFlag \<Rightarrow> CPU \<Rightarrow> outcome" where
  "if_arith ins result_val cond_code s =
     (if op ins = ADD \<or> op ins = SUB \<or> op ins = MUL \<or> op ins = DIV then
        (case subscript (registers s) (reg_target ins) of
           Inl e \<Rightarrow> (Some e, s)
         | Inr t \<Rightarrow> (None, (reg_put t result_val s)\<lparr>condition := cond_code\<rparr>))
      else (None, s))"

text \<open>
  The part of \<^verbatim>\<open>step\<close> under the comment \<^verbatim>\<open># Execute\<close>. Unpacking the result of
  \<^verbatim>\<open>exec\<close> into \<^verbatim>\<open>result_val, cond_code\<close> raises TypeError if it is \<^verbatim>\<open>None\<close>.
\<close>

definition execute :: "instr_format \<Rightarrow> int \<Rightarrow> Instruction \<Rightarrow> CPU \<Rightarrow> outcome" where
  "execute fmt counter ins s =
     (let pre_satisfied = condition s AND cond ins in
      if pre_satisfied \<noteq> 0 then
        (case subscript (registers s) (reg_src1 ins) of
           Inl e \<Rightarrow> (Some e, s)
         | Inr left_index \<Rightarrow>
        let left_op = Register_get (registers s ! left_index) in
        (case subscript (registers s) (reg_src2 ins) of
           Inl e \<Rightarrow> (Some e, s)
         | Inr right_index \<Rightarrow>
        let right_op = Register_get (registers s ! right_index) + offset ins in
        (case exec fmt (op ins) left_op right_op of
           None \<Rightarrow> (Some TypeError, s)
         | Some (result_val, cond_code) \<Rightarrow>
        then_do (then_do (then_do
          (if_STORE ins result_val (pc_put (counter + 1) s))
          (if_LOAD ins result_val))
          (if_HALT ins))
          (if_arith ins result_val cond_code))))
      else (None, pc_put (counter + 1) s))"

text \<open>\<^verbatim>\<open>CPU.step\<close>: fetch, decode, notify the listeners, execute.\<close>

definition step :: "instr_format \<Rightarrow> CPU \<Rightarrow> outcome" where
  "step fmt s =
     (let counter = pc_get s in
      case Memory_get (memory s) counter of
        Inl e \<Rightarrow> (Some e, s)
      | Inr word \<Rightarrow>
     (case decode fmt word of
        None \<Rightarrow> (Some DecodeError, s)
      | Some ins \<Rightarrow>
          execute fmt counter ins
            (notify_all \<lparr>subject = CPU_view.truncate s, pc_addr = counter,
                         instr_word = word, instr = ins\<rparr> s)))"

text \<open>
  The \<^verbatim>\<open>input(...)\<close> of single-step mode prompts with the step count and blocks until a
  line arrives on the console; it does not touch the CPU.
\<close>

definition wait_for_enter :: "nat \<Rightarrow> CPU \<Rightarrow> CPU" where
  "wait_for_enter step_count s = s"

text \<open>
  \<^verbatim>\<open>CPU.run\<close>. The \<^verbatim>\<open>while\<close> loop may run forever, which is the result \<open>None\<close>. A result
  \<open>Some (e, n, s)\<close> is the loop left with exception \<open>e\<close> (or normally, \<open>e = None\<close>), the
  local \<^verbatim>\<open>step_count\<close> at \<open>n\<close> and the CPU as \<open>s\<close>.
\<close>

partial_function (option) run_loop ::
  "instr_format \<Rightarrow> bool \<Rightarrow> nat \<Rightarrow> CPU \<Rightarrow> (error option \<times> nat \<times> CPU) option" where
  "run_loop fmt single_step step_count s =
     (if \<not> halted s then
        (case step fmt (if single_step then wait_for_enter step_count s else s) of
           (Some e, s') \<Rightarrow> Some (Some e, step_count, s')
         | (None, s') \<Rightarrow> run_loop fmt single_step (step_count + 1) s')
      else Some (None, step_count, s))"

declare run_loop.simps [code]

definition run :: "instr_format \<Rightarrow> int \<Rightarrow> bool \<Rightarrow> CPU \<Rightarrow> (error option \<times> nat \<times> CPU) option" where
  "run fmt from_addr single_step s =
     run_loop fmt single_step 0 (pc_put from_addr (s\<lparr>halted := False\<rparr>))"

subsection \<open>Well-formed CPUs, the flag rule, and an example machine\<close>

text \<open>
  What \<^verbatim>\<open>__init__\<close> establishes about the register bank and no method changes: sixteen
  register objects, the first a \<^verbatim>\<open>ZeroRegister\<close>, the others plain registers.
\<close>

definition CPU_inv :: "CPU \<Rightarrow> bool" where
  "CPU_inv s =
     (case registers s of
        [] \<Rightarrow> False
      | r0 # rs \<Rightarrow> r0 = ZeroRegister \<and> length rs = 15 \<and> list_all (\<lambda>r. r \<noteq> ZeroRegister) rs)"

text \<open>
  The flag rule in the specification's words: "negative \<rightarrow> M; zero \<rightarrow> Z; positive \<rightarrow> P".
\<close>

definition sign_flag :: "instr_format \<Rightarrow> int \<Rightarrow> CondFlag" where
  "sign_flag fmt v =
     (if v < 0 then CondFlag_M fmt else if v = 0 then CondFlag_Z fmt else CondFlag_P fmt)"

text \<open>
  An example instruction format (one bit per flag, a decoder given by a table) on which
  the model is evaluated below.
\<close>

definition demo_ADD :: Instruction where
  "demo_ADD = \<lparr>op = ADD, cond = 15, reg_target = 1, reg_src1 = 0, reg_src2 = 0, offset = 5\<rparr>"

definition demo_STORE :: Instruction where
  "demo_STORE = \<lparr>op = STORE, cond = 15, reg_target = 1, reg_src1 = 0, reg_src2 = 0, offset = 100\<rparr>"

definition demo_HALT :: Instruction where
  "demo_HALT = \<lparr>op = HALT, cond = 15, reg_target = 0, reg_src1 = 0, reg_src2 = 0, offset = 0\<rparr>"

definition demo_LOAD :: Instruction where
  "demo_LOAD = \<lparr>op = LOAD, cond = 15, reg_target = 2, reg_src1 = 1, reg_src2 = 0, offset = 95\<rparr>"

definition demo_JUMP :: Instruction where
  "demo_JUMP = \<lparr>op = ADD, cond = 15, reg_target = 15, reg_src1 = 1, reg_src2 = 0, offset = 2\<rparr>"

definition demo_SUB_if_P :: Instruction where
  "demo_SUB_if_P = \<lparr>op = SUB, cond = 4, reg_target = 3, reg_src1 = 1, reg_src2 = 1, offset = 0\<rparr>"

definition demo_decode :: "int \<Rightarrow> Instruction option" where
  "demo_decode = map_of
     [(10, demo_ADD), (11, demo_STORE), (12, demo_HALT),
      (13, demo_LOAD), (14, demo_JUMP), (15, demo_SUB_if_P)]"

definition demo_format :: instr_format where
  "demo_format = \<lparr>CondFlag_ALWAYS = 15, CondFlag_M = 1, CondFlag_Z = 2, CondFlag_P = 4,
     CondFlag_V = 8, decode = demo_decode\<rparr>"

text \<open>
  The program of the specification's end-to-end scenario at addresses 0 to 2, three more
  instructions behind it, and one data cell at address 100.
\<close>

definition demo_memory :: Memory where
  "demo_memory = map_of [(0, 10), (1, 11), (2, 12), (3, 13), (4, 14), (5, 15), (100, 0)]"

definition demo_cpu :: CPU where
  "demo_cpu = CPU_init demo_format demo_memory"

text \<open>\<open>n\<close> invocations of \<^verbatim>\<open>step()\<close> in a row, ended early by the first that raises.\<close>

fun step_n :: "instr_format \<Rightarrow> nat \<Rightarrow> CPU \<Rightarrow> outcome" where
  "step_n fmt 0 s = (None, s)"
| "step_n fmt (Suc n) s = then_do (step fmt s) (step_n fmt n)"

text \<open>The example machine after its first \<open>n\<close> steps, with the program counter moved to \<open>a\<close>.\<close>

definition demo_after :: "nat \<Rightarrow> int \<Rightarrow> CPU" where
  "demo_after n a = pc_put a (snd (step_n demo_format n demo_cpu))"


section \<open>Supporting lemmas\<close>

subsection \<open>The register bank\<close>

lemma CPU_inv_length: "CPU_inv s \<Longrightarrow> length (registers s) = 16"
  by (auto simp: CPU_inv_def split: list.splits)

lemma CPU_inv_zero: "CPU_inv s \<Longrightarrow> registers s ! 0 = ZeroRegister"
  by (auto simp: CPU_inv_def split: list.splits)

lemma CPU_inv_cell:
  assumes "CPU_inv s" and "0 < k" and "k < 16"
  shows "registers s ! k \<noteq> ZeroRegister"
proof -
  from assms(1) obtain rs where rs: "registers s = ZeroRegister # rs" "length rs = 15"
    "list_all (\<lambda>r. r \<noteq> ZeroRegister) rs"
    by (auto simp: CPU_inv_def split: list.splits)
  from assms(2) obtain j where j: "k = Suc j" by (cases k) auto
  with assms(3) rs(2) have "j < length rs" by simp
  with rs(3) have "rs ! j \<noteq> ZeroRegister" by (simp add: list_all_length)
  with rs(1) j show ?thesis by simp
qed

lemma Register_put_cell: "r \<noteq> ZeroRegister \<Longrightarrow> Register_put r v = Register v"
  by (cases r) auto

lemma CPU_inv_init: "CPU_inv (CPU_init fmt mem)"
  by (simp add: CPU_inv_def CPU_init_def)

lemma subscript_15: "CPU_inv s \<Longrightarrow> subscript (registers s) 15 = Inr 15"
  by (simp add: subscript_def CPU_inv_length)

lemma subscript_bound: "subscript xs i = Inr k \<Longrightarrow> k < length xs"
  by (auto simp: subscript_def split: if_splits)

lemma subscript_length_cong: "length xs = length ys \<Longrightarrow> subscript xs i = subscript ys i"
  by (simp add: subscript_def)

subsection \<open>The ALU\<close>

lemma exec_Inr: "ALU_OPS opc a b = Inr r \<Longrightarrow> exec fmt opc a b = Some (r, sign_flag fmt r)"
  by (simp add: exec_def sign_flag_def)

lemma exec_Inl: "ALU_OPS opc a b = Inl e \<Longrightarrow> exec fmt opc a b = Some (0, CondFlag_V fmt)"
  by (simp add: exec_def)

lemma exec_total: "\<exists>result_val cond_code. exec fmt opc a b = Some (result_val, cond_code)"
  by (cases opc) (auto simp: exec_def)

subsection \<open>The statements of step\<close>

lemma notify_all_simps:
  "memory (notify_all ev s) = memory s"
  "registers (notify_all ev s) = registers s"
  "condition (notify_all ev s) = condition s"
  "halted (notify_all ev s) = halted s"
  "notified (notify_all ev s) = notified s @ [ev]"
  by (simp_all add: notify_all_def)

lemma reg_put_simps:
  "memory (reg_put k v s) = memory s"
  "registers (reg_put k v s) = (registers s)[k := Register_put (registers s ! k) v]"
  "condition (reg_put k v s) = condition s"
  "halted (reg_put k v s) = halted s"
  "notified (reg_put k v s) = notified s"
  by (simp_all add: reg_put_def)

lemma pc_get_notify_all: "pc_get (notify_all ev s) = pc_get s"
  by (simp add: pc_get_def notify_all_simps)

lemma CPU_inv_notify_all: "CPU_inv (notify_all ev s) = CPU_inv s"
  by (simp add: CPU_inv_def notify_all_simps)

lemma CPU_inv_reg_put: "CPU_inv s \<Longrightarrow> CPU_inv (reg_put k v s)"
proof -
  assume inv: "CPU_inv s"
  then obtain rs where rs: "registers s = ZeroRegister # rs" "length rs = 15"
    "list_all (\<lambda>r. r \<noteq> ZeroRegister) rs"
    by (auto simp: CPU_inv_def split: list.splits)
  show ?thesis
  proof (cases k)
    case 0
    with rs show ?thesis by (simp add: CPU_inv_def reg_put_simps)
  next
    case (Suc j)
    have "list_all (\<lambda>r. r \<noteq> ZeroRegister) (rs[j := Register_put (rs ! j) v])"
    proof (cases "j < length rs")
      case True
      with rs(3) have "rs ! j \<noteq> ZeroRegister" by (simp add: list_all_length)
      then have "Register_put (rs ! j) v \<noteq> ZeroRegister" by (simp add: Register_put_cell)
      with rs(3) show ?thesis
        using set_update_subset_insert [of rs j "Register_put (rs ! j) v"]
        by (auto simp: list_all_iff)
    next
      case False
      then have "rs[j := Register_put (rs ! j) v] = rs"
        by (simp add: not_less list_update_beyond)
      with rs(3) show ?thesis by simp
    qed
    with rs Suc show ?thesis by (simp add: CPU_inv_def reg_put_simps)
  qed
qed

lemma pc_put_registers:
  "CPU_inv s \<Longrightarrow> registers (pc_put v s) = (registers s)[15 := Register v]"
  by (simp add: pc_put_def reg_put_simps Register_put_cell CPU_inv_cell)

lemma pc_put_simps:
  "memory (pc_put v s) = memory s"
  "condition (pc_put v s) = condition s"
  "halted (pc_put v s) = halted s"
  "notified (pc_put v s) = notified s"
  by (simp_all add: pc_put_def reg_put_simps)

lemma CPU_inv_pc_put: "CPU_inv s \<Longrightarrow> CPU_inv (pc_put v s)"
  by (simp add: pc_put_def CPU_inv_reg_put)

lemma pc_get_pc_put: "CPU_inv s \<Longrightarrow> pc_get (pc_put v s) = v"
  by (simp add: pc_get_def pc_put_registers CPU_inv_length)

lemma run_reset:
  "CPU_inv s \<Longrightarrow> pc_put a (s\<lparr>halted := False\<rparr>) =
     s\<lparr>halted := False, registers := (registers s)[15 := Register a]\<rparr>"
proof -
  assume inv: "CPU_inv s"
  then have "CPU_inv (s\<lparr>halted := False\<rparr>)"
    by (simp add: CPU_inv_def)
  then have "registers (s\<lparr>halted := False\<rparr>) ! 15 \<noteq> ZeroRegister"
    by (rule CPU_inv_cell) simp_all
  then show ?thesis
    by (simp add: pc_put_def reg_put_def Register_put_cell)
qed

lemma step_satisfied_pre:
  assumes inv: "CPU_inv s"
  shows "CPU_inv (pc_put c (notify_all ev s))"
    and "registers (pc_put c (notify_all ev s)) = (registers s)[15 := Register c]"
    and "memory (pc_put c (notify_all ev s)) = memory s"
    and "condition (pc_put c (notify_all ev s)) = condition s"
    and "halted (pc_put c (notify_all ev s)) = halted s"
    and "notified (pc_put c (notify_all ev s)) = notified s @ [ev]"
    and "subscript (registers (pc_put c (notify_all ev s))) i = subscript (registers s) i"
proof -
  have inv1: "CPU_inv (notify_all ev s)"
    using inv by (simp add: CPU_inv_notify_all)
  then show "CPU_inv (pc_put c (notify_all ev s))"
    by (rule CPU_inv_pc_put)
  show regs: "registers (pc_put c (notify_all ev s)) = (registers s)[15 := Register c]"
    using inv1 by (simp add: pc_put_registers notify_all_simps)
  show "memory (pc_put c (notify_all ev s)) = memory s"
    and "condition (pc_put c (notify_all ev s)) = condition s"
    and "halted (pc_put c (notify_all ev s)) = halted s"
    and "notified (pc_put c (notify_all ev s)) = notified s @ [ev]"
    by (simp_all add: pc_put_simps notify_all_simps)
  show "subscript (registers (pc_put c (notify_all ev s))) i = subscript (registers s) i"
    by (rule subscript_length_cong) (simp add: regs)
qed

lemma current_value:
  assumes "CPU_inv s" and "t < 16"
  shows "Register_get ((registers s)[15 := Register c] ! t) =
           (if t = 15 then c else Register_get (registers s ! t))"
  using assms by (simp add: nth_list_update CPU_inv_length)

lemma then_do_None: "then_do (None, s) f = f s"
  by (simp add: then_do_def)

lemma then_do_Some: "then_do (Some e, s) f = (Some e, s)"
  by (simp add: then_do_def)

lemma then_do_skip:
  assumes "\<And>s. f s = (None, s)"
  shows "then_do r f = r"
proof (cases r)
  case (Pair e s)
  with assms show ?thesis by (cases e) (simp_all add: then_do_def)
qed

lemma then_do_frame:
  assumes "\<And>s. g (snd (f s)) = g s"
  shows "g (snd (then_do r f)) = g (snd r)"
proof (cases r)
  case (Pair e s)
  with assms show ?thesis by (cases e) (simp_all add: then_do_def)
qed

lemma step_fetched:
  assumes "Memory_get (memory s) (pc_get s) = Inr w" and "decode fmt w = Some ins"
  shows "step fmt s =
    execute fmt (pc_get s) ins
      (notify_all \<lparr>subject = CPU_view.truncate s, pc_addr = pc_get s,
                   instr_word = w, instr = ins\<rparr> s)"
  using assms by (simp add: step_def Let_def)

lemma execute_unsatisfied:
  "condition s AND cond ins = 0 \<Longrightarrow> execute fmt c ins s = (None, pc_put (c + 1) s)"
  by (simp add: execute_def)

lemma execute_satisfied:
  assumes "condition s AND cond ins \<noteq> 0"
    and "subscript (registers s) (reg_src1 ins) = Inr l"
    and "subscript (registers s) (reg_src2 ins) = Inr r"
    and "exec fmt (op ins) (Register_get (registers s ! l))
           (Register_get (registers s ! r) + offset ins) = Some (result_val, cond_code)"
  shows "execute fmt c ins s =
     then_do (then_do (then_do
          (if_STORE ins result_val (pc_put (c + 1) s))
          (if_LOAD ins result_val))
          (if_HALT ins))
          (if_arith ins result_val cond_code)"
  using assms by (simp add: execute_def)

lemma execute_STORE:
  assumes "condition s AND cond ins \<noteq> 0"
    and "subscript (registers s) (reg_src1 ins) = Inr l"
    and "subscript (registers s) (reg_src2 ins) = Inr r"
    and "op ins = STORE"
  shows "execute fmt c ins s =
     if_STORE ins (Register_get (registers s ! l) + (Register_get (registers s ! r) + offset ins))
        (pc_put (c + 1) s)"
proof -
  let ?a = "Register_get (registers s ! l) + (Register_get (registers s ! r) + offset ins)"
  have "ALU_OPS (op ins) (Register_get (registers s ! l))
           (Register_get (registers s ! r) + offset ins) = Inr ?a"
    using assms(4) by simp
  then have "exec fmt (op ins) (Register_get (registers s ! l))
           (Register_get (registers s ! r) + offset ins) = Some (?a, sign_flag fmt ?a)"
    by (rule exec_Inr)
  from execute_satisfied [OF assms(1-3) this]
  have "execute fmt c ins s =
     then_do (then_do (then_do
          (if_STORE ins ?a (pc_put (c + 1) s))
          (if_LOAD ins ?a))
          (if_HALT ins))
          (if_arith ins ?a (sign_flag fmt ?a))" .
  moreover have "\<And>s. if_LOAD ins ?a s = (None, s)"
    using assms(4) by (simp add: if_LOAD_def)
  moreover have "\<And>s. if_HALT ins s = (None, s)"
    using assms(4) by (simp add: if_HALT_def)
  moreover have "\<And>s. if_arith ins ?a (sign_flag fmt ?a) s = (None, s)"
    using assms(4) by (simp add: if_arith_def)
  ultimately show ?thesis
    by (simp add: then_do_skip)
qed

lemma execute_LOAD:
  assumes "condition s AND cond ins \<noteq> 0"
    and "subscript (registers s) (reg_src1 ins) = Inr l"
    and "subscript (registers s) (reg_src2 ins) = Inr r"
    and "op ins = LOAD"
  shows "execute fmt c ins s =
     if_LOAD ins (Register_get (registers s ! l) + (Register_get (registers s ! r) + offset ins))
        (pc_put (c + 1) s)"
proof -
  let ?a = "Register_get (registers s ! l) + (Register_get (registers s ! r) + offset ins)"
  have "ALU_OPS (op ins) (Register_get (registers s ! l))
           (Register_get (registers s ! r) + offset ins) = Inr ?a"
    using assms(4) by simp
  then have "exec fmt (op ins) (Register_get (registers s ! l))
           (Register_get (registers s ! r) + offset ins) = Some (?a, sign_flag fmt ?a)"
    by (rule exec_Inr)
  from execute_satisfied [OF assms(1-3) this]
  have "execute fmt c ins s =
     then_do (then_do (then_do
          (if_STORE ins ?a (pc_put (c + 1) s))
          (if_LOAD ins ?a))
          (if_HALT ins))
          (if_arith ins ?a (sign_flag fmt ?a))" .
  moreover have "if_STORE ins ?a (pc_put (c + 1) s) = (None, pc_put (c + 1) s)"
    using assms(4) by (simp add: if_STORE_def)
  moreover have "\<And>s. if_HALT ins s = (None, s)"
    using assms(4) by (simp add: if_HALT_def)
  moreover have "\<And>s. if_arith ins ?a (sign_flag fmt ?a) s = (None, s)"
    using assms(4) by (simp add: if_arith_def)
  ultimately show ?thesis
    by (simp add: then_do_skip then_do_None)
qed

lemma execute_HALT:
  assumes "condition s AND cond ins \<noteq> 0"
    and "subscript (registers s) (reg_src1 ins) = Inr l"
    and "subscript (registers s) (reg_src2 ins) = Inr r"
    and "op ins = HALT"
  shows "execute fmt c ins s = (None, (pc_put (c + 1) s)\<lparr>halted := True\<rparr>)"
proof -
  have "ALU_OPS (op ins) (Register_get (registers s ! l))
           (Register_get (registers s ! r) + offset ins) = Inr 0"
    using assms(4) by simp
  then have "exec fmt (op ins) (Register_get (registers s ! l))
           (Register_get (registers s ! r) + offset ins) = Some (0, sign_flag fmt 0)"
    by (rule exec_Inr)
  from execute_satisfied [OF assms(1-3) this]
  have "execute fmt c ins s =
     then_do (then_do (then_do
          (if_STORE ins 0 (pc_put (c + 1) s))
          (if_LOAD ins 0))
          (if_HALT ins))
          (if_arith ins 0 (sign_flag fmt 0))" .
  moreover have "if_STORE ins 0 (pc_put (c + 1) s) = (None, pc_put (c + 1) s)"
    using assms(4) by (simp add: if_STORE_def)
  moreover have "\<And>s. if_LOAD ins 0 s = (None, s)"
    using assms(4) by (simp add: if_LOAD_def)
  moreover have "\<And>s. if_arith ins 0 (sign_flag fmt 0) s = (None, s)"
    using assms(4) by (simp add: if_arith_def)
  ultimately show ?thesis
    using assms(4) by (simp add: then_do_skip then_do_None if_HALT_def)
qed

lemma execute_arith:
  assumes "condition s AND cond ins \<noteq> 0"
    and "subscript (registers s) (reg_src1 ins) = Inr l"
    and "subscript (registers s) (reg_src2 ins) = Inr r"
    and "op ins = ADD \<or> op ins = SUB \<or> op ins = MUL \<or> op ins = DIV"
    and "exec fmt (op ins) (Register_get (registers s ! l))
           (Register_get (registers s ! r) + offset ins) = Some (result_val, cond_code)"
  shows "execute fmt c ins s = if_arith ins result_val cond_code (pc_put (c + 1) s)"
proof -
  from execute_satisfied [OF assms(1-3) assms(5)]
  have "execute fmt c ins s =
     then_do (then_do (then_do
          (if_STORE ins result_val (pc_put (c + 1) s))
          (if_LOAD ins result_val))
          (if_HALT ins))
          (if_arith ins result_val cond_code)" .
  moreover have "if_STORE ins result_val (pc_put (c + 1) s) = (None, pc_put (c + 1) s)"
    using assms(4) by (auto simp: if_STORE_def)
  moreover have "\<And>s. if_LOAD ins result_val s = (None, s)"
    using assms(4) by (auto simp: if_LOAD_def)
  moreover have "\<And>s. if_HALT ins s = (None, s)"
    using assms(4) by (auto simp: if_HALT_def)
  ultimately show ?thesis
    by (simp add: then_do_skip then_do_None)
qed

lemma step_arith:
  assumes inv: "CPU_inv s"
    and fetch: "Memory_get (memory s) (pc_get s) = Inr w"
    and dec: "decode fmt w = Some ins"
    and sat: "condition s AND cond ins \<noteq> 0"
    and src1: "subscript (registers s) (reg_src1 ins) = Inr l"
    and src2: "subscript (registers s) (reg_src2 ins) = Inr r"
    and tgt: "subscript (registers s) (reg_target ins) = Inr t"
    and arith: "op ins = ADD \<or> op ins = SUB \<or> op ins = MUL \<or> op ins = DIV"
    and ex: "exec fmt (op ins) (Register_get (registers s ! l))
               (Register_get (registers s ! r) + offset ins) = Some (result_val, cond_code)"
  shows "step fmt s =
     (None, (reg_put t result_val
        (pc_put (pc_get s + 1)
          (notify_all \<lparr>subject = CPU_view.truncate s, pc_addr = pc_get s,
                       instr_word = w, instr = ins\<rparr> s)))\<lparr>condition := cond_code\<rparr>)"
proof -
  let ?ev = "\<lparr>subject = CPU_view.truncate s, pc_addr = pc_get s, instr_word = w, instr = ins\<rparr>"
  let ?s1 = "notify_all ?ev s"
  let ?s2 = "pc_put (pc_get s + 1) ?s1"
  note pre = step_satisfied_pre [OF inv, of "pc_get s + 1" ?ev]
  have sat1: "condition ?s1 AND cond ins \<noteq> 0"
    using sat by (simp add: notify_all_simps)
  have src1': "subscript (registers ?s1) (reg_src1 ins) = Inr l"
    using src1 by (simp add: notify_all_simps)
  have src2': "subscript (registers ?s1) (reg_src2 ins) = Inr r"
    using src2 by (simp add: notify_all_simps)
  have ex1: "exec fmt (op ins) (Register_get (registers ?s1 ! l))
               (Register_get (registers ?s1 ! r) + offset ins) = Some (result_val, cond_code)"
    using ex by (simp add: notify_all_simps)
  have tgt2: "subscript (registers ?s2) (reg_target ins) = Inr t"
    using tgt by (simp add: pre(7))
  have "step fmt s = if_arith ins result_val cond_code ?s2"
    using step_fetched [OF fetch dec] execute_arith [OF sat1 src1' src2' arith ex1]
    by simp
  also have "\<dots> = (None, (reg_put t result_val ?s2)\<lparr>condition := cond_code\<rparr>)"
    using arith tgt2 by (auto simp: if_arith_def)
  finally show ?thesis .
qed

subsection \<open>What a step never touches\<close>

lemma if_STORE_condition: "condition (snd (if_STORE ins a s)) = condition s"
  by (simp add: if_STORE_def split: sum.splits)

lemma if_LOAD_condition: "condition (snd (if_LOAD ins a s)) = condition s"
  by (simp add: if_LOAD_def reg_put_simps split: sum.splits)

lemma if_HALT_condition: "condition (snd (if_HALT ins s)) = condition s"
  by (simp add: if_HALT_def)

lemma if_arith_condition:
  "op ins = LOAD \<or> op ins = STORE \<or> op ins = HALT \<Longrightarrow>
   condition (snd (if_arith ins a f s)) = condition s"
  by (auto simp: if_arith_def)

lemma execute_condition:
  assumes "op ins = LOAD \<or> op ins = STORE \<or> op ins = HALT"
  shows "condition (snd (execute fmt c ins s)) = condition s"
proof (cases "condition s AND cond ins = 0")
  case True
  then show ?thesis
    by (simp add: execute_unsatisfied pc_put_simps)
next
  case False
  have chain: "condition (snd (then_do (then_do (then_do
          (if_STORE ins a (pc_put (c + 1) s))
          (if_LOAD ins a))
          (if_HALT ins))
          (if_arith ins a f))) = condition s" for a f
  proof -
    have "condition (snd (then_do (then_do (then_do
          (if_STORE ins a (pc_put (c + 1) s))
          (if_LOAD ins a))
          (if_HALT ins))
          (if_arith ins a f))) =
        condition (snd (then_do (then_do
          (if_STORE ins a (pc_put (c + 1) s))
          (if_LOAD ins a))
          (if_HALT ins)))"
      by (rule then_do_frame) (rule if_arith_condition [OF assms])
    also have "\<dots> = condition (snd (then_do
          (if_STORE ins a (pc_put (c + 1) s))
          (if_LOAD ins a)))"
      by (rule then_do_frame) (rule if_HALT_condition)
    also have "\<dots> = condition (snd (if_STORE ins a (pc_put (c + 1) s)))"
      by (rule then_do_frame) (rule if_LOAD_condition)
    also have "\<dots> = condition s"
      by (simp add: if_STORE_condition pc_put_simps)
    finally show ?thesis .
  qed
  from False show ?thesis
    by (simp add: execute_def Let_def chain split: sum.splits option.splits prod.splits)
qed

lemma if_STORE_notified: "notified (snd (if_STORE ins a s)) = notified s"
  by (simp add: if_STORE_def split: sum.splits)

lemma if_LOAD_notified: "notified (snd (if_LOAD ins a s)) = notified s"
  by (simp add: if_LOAD_def reg_put_simps split: sum.splits)

lemma if_HALT_notified: "notified (snd (if_HALT ins s)) = notified s"
  by (simp add: if_HALT_def)

lemma if_arith_notified: "notified (snd (if_arith ins a f s)) = notified s"
  by (simp add: if_arith_def reg_put_simps split: sum.splits)

lemma execute_notified: "notified (snd (execute fmt c ins s)) = notified s"
proof -
  have chain: "notified (snd (then_do (then_do (then_do
          (if_STORE ins a (pc_put (c + 1) s))
          (if_LOAD ins a))
          (if_HALT ins))
          (if_arith ins a f))) = notified s" for a f
  proof -
    have "notified (snd (then_do (then_do (then_do
          (if_STORE ins a (pc_put (c + 1) s))
          (if_LOAD ins a))
          (if_HALT ins))
          (if_arith ins a f))) =
        notified (snd (then_do (then_do
          (if_STORE ins a (pc_put (c + 1) s))
          (if_LOAD ins a))
          (if_HALT ins)))"
      by (rule then_do_frame) (rule if_arith_notified)
    also have "\<dots> = notified (snd (then_do
          (if_STORE ins a (pc_put (c + 1) s))
          (if_LOAD ins a)))"
      by (rule then_do_frame) (rule if_HALT_notified)
    also have "\<dots> = notified (snd (if_STORE ins a (pc_put (c + 1) s)))"
      by (rule then_do_frame) (rule if_LOAD_notified)
    also have "\<dots> = notified s"
      by (simp add: if_STORE_notified pc_put_simps)
    finally show ?thesis .
  qed
  show ?thesis
    by (simp add: execute_def Let_def chain pc_put_simps split: sum.splits option.splits prod.splits)
qed

subsection \<open>Every step keeps the register bank well formed\<close>

lemma then_do_inv:
  assumes "CPU_inv (snd r)" and "\<And>s. CPU_inv s \<Longrightarrow> CPU_inv (snd (f s))"
  shows "CPU_inv (snd (then_do r f))"
proof (cases r)
  case (Pair e s)
  with assms show ?thesis by (cases e) (simp_all add: then_do_def)
qed

lemma CPU_inv_field_update:
  "CPU_inv (s\<lparr>memory := m\<rparr>) = CPU_inv s"
  "CPU_inv (s\<lparr>halted := h\<rparr>) = CPU_inv s"
  "CPU_inv (s\<lparr>condition := c\<rparr>) = CPU_inv s"
  by (simp_all add: CPU_inv_def)

lemma if_STORE_inv: "CPU_inv s \<Longrightarrow> CPU_inv (snd (if_STORE ins a s))"
  by (simp add: if_STORE_def CPU_inv_field_update split: sum.splits)

lemma if_LOAD_inv: "CPU_inv s \<Longrightarrow> CPU_inv (snd (if_LOAD ins a s))"
  by (simp add: if_LOAD_def CPU_inv_reg_put split: sum.splits)

lemma if_HALT_inv: "CPU_inv s \<Longrightarrow> CPU_inv (snd (if_HALT ins s))"
  by (simp add: if_HALT_def CPU_inv_field_update)

lemma if_arith_inv: "CPU_inv s \<Longrightarrow> CPU_inv (snd (if_arith ins a f s))"
  by (simp add: if_arith_def CPU_inv_reg_put CPU_inv_field_update split: sum.splits)

lemma execute_inv:
  assumes "CPU_inv s"
  shows "CPU_inv (snd (execute fmt c ins s))"
proof -
  have chain: "CPU_inv (snd (then_do (then_do (then_do
          (if_STORE ins a (pc_put (c + 1) s))
          (if_LOAD ins a))
          (if_HALT ins))
          (if_arith ins a f)))" for a f
    by (intro then_do_inv if_STORE_inv if_LOAD_inv if_HALT_inv if_arith_inv
        CPU_inv_pc_put assms)
  show ?thesis
    using assms
    by (simp add: execute_def Let_def chain CPU_inv_pc_put
        split: sum.splits option.splits prod.splits)
qed

lemma step_inv: "CPU_inv s \<Longrightarrow> CPU_inv (snd (step fmt s))"
  by (simp add: step_def Let_def execute_inv CPU_inv_notify_all
      split: sum.splits option.splits)

subsection \<open>The run loop\<close>

lemma wait_for_enter_cpu: "(if ss then wait_for_enter k s else s) = s"
  by (simp add: wait_for_enter_def)

lemma run_loop_halted: "halted s \<Longrightarrow> run_loop fmt ss k s = Some (None, k, s)"
  by (subst run_loop.simps) simp

lemma run_loop_step:
  "\<not> halted s \<Longrightarrow> step fmt s = (None, s1) \<Longrightarrow>
   run_loop fmt ss k s = run_loop fmt ss (k + 1) s1"
  by (subst run_loop.simps) (simp add: wait_for_enter_cpu)

lemma run_loop_raise:
  "\<not> halted s \<Longrightarrow> step fmt s = (Some e, s1) \<Longrightarrow>
   run_loop fmt ss k s = Some (Some e, k, s1)"
  by (subst run_loop.simps) (simp add: wait_for_enter_cpu)

lemma step_n_Suc_None: "step fmt s = (None, s1) \<Longrightarrow> step_n fmt (Suc n) s = step_n fmt n s1"
  by (simp add: then_do_None)

lemma step_n_Suc_Some: "step fmt s = (Some e, s1) \<Longrightarrow> step_n fmt (Suc n) s = (Some e, s1)"
  by (simp add: then_do_Some)

lemma run_loop_reaches:
  assumes "step_n fmt n s = (None, s')" and "halted s'"
    and "\<forall>j<n. \<not> halted (snd (step_n fmt j s))"
  shows "run_loop fmt ss k s = Some (None, k + n, s')"
  using assms
proof (induction n arbitrary: s k)
  case 0
  then show ?case by (simp add: run_loop_halted)
next
  case (Suc n)
  from Suc.prems(3) have nh: "\<not> halted s"
    by (metis zero_less_Suc step_n.simps(1) snd_conv)
  obtain e s1 where st: "step fmt s = (e, s1)"
    by (cases "step fmt s")
  show ?case
  proof (cases e)
    case None
    with st have st': "step fmt s = (None, s1)" by simp
    have a: "step_n fmt n s1 = (None, s')"
      using Suc.prems(1) step_n_Suc_None [OF st'] by simp
    have b: "\<forall>j<n. \<not> halted (snd (step_n fmt j s1))"
    proof (intro allI impI)
      fix j assume "j < n"
      then have "\<not> halted (snd (step_n fmt (Suc j) s))"
        using Suc.prems(3) by (metis Suc_mono)
      then show "\<not> halted (snd (step_n fmt j s1))"
        using step_n_Suc_None [OF st'] by simp
    qed
    have "run_loop fmt ss (k + 1) s1 = Some (None, k + 1 + n, s')"
      by (rule Suc.IH [OF a Suc.prems(2) b])
    then show ?thesis
      using run_loop_step [OF nh st'] by simp
  next
    case (Some err)
    with st have "step fmt s = (Some err, s1)" by simp
    then have "step_n fmt (Suc n) s = (Some err, s1)"
      by (rule step_n_Suc_Some)
    with Suc.prems(1) show ?thesis by simp
  qed
qed

lemma run_loop_returned:
  assumes "run_loop fmt ss k s = Some y"
  shows "fst y = None \<longrightarrow>
     (\<exists>n. fst (snd y) = k + n \<and> step_n fmt n s = (None, snd (snd y)) \<and>
          halted (snd (snd y)) \<and> (\<forall>j<n. \<not> halted (snd (step_n fmt j s))))"
proof (rule run_loop.raw_induct
    [where P = "\<lambda>fmt ss k s y. fst y = None \<longrightarrow>
       (\<exists>n. fst (snd y) = k + n \<and> step_n fmt n s = (None, snd (snd y)) \<and>
          halted (snd (snd y)) \<and> (\<forall>j<n. \<not> halted (snd (step_n fmt j s))))"
     and fmt = fmt and single_step = ss and step_count = k and s = s and y = y])
  show "run_loop fmt ss k s = Some y" by (rule assms)
next
  fix loop :: "instr_format \<Rightarrow> bool \<Rightarrow> nat \<Rightarrow> CPU \<Rightarrow> (error option \<times> nat \<times> CPU) option"
  fix fmt ss k s y
  assume IH: "\<And>fmt ss k s y. loop fmt ss k s = Some y \<Longrightarrow> fst y = None \<longrightarrow>
       (\<exists>n. fst (snd y) = k + n \<and> step_n fmt n s = (None, snd (snd y)) \<and>
          halted (snd (snd y)) \<and> (\<forall>j<n. \<not> halted (snd (step_n fmt j s))))"
    and eq: "(if \<not> halted s
        then case step fmt (if ss then wait_for_enter k s else s) of
             (None, s') \<Rightarrow> loop fmt ss (k + 1) s'
           | (Some e, s') \<Rightarrow> Some (Some e, k, s')
        else Some (None, k, s)) = Some y"
  show "fst y = None \<longrightarrow>
       (\<exists>n. fst (snd y) = k + n \<and> step_n fmt n s = (None, snd (snd y)) \<and>
          halted (snd (snd y)) \<and> (\<forall>j<n. \<not> halted (snd (step_n fmt j s))))"
  proof (cases "halted s")
    case True
    with eq have "y = (None, k, s)" by simp
    with True show ?thesis by (intro impI exI [of _ 0]) simp
  next
    case nh: False
    obtain e s1 where st: "step fmt s = (e, s1)"
      by (cases "step fmt s")
    show ?thesis
    proof (cases e)
      case (Some err)
      with eq nh st have "y = (Some err, k, s1)" by (simp add: wait_for_enter_cpu)
      then show ?thesis by simp
    next
      case None
      with st have st': "step fmt s = (None, s1)" by simp
      with eq nh have "loop fmt ss (k + 1) s1 = Some y" by (simp add: wait_for_enter_cpu)
      then have ih: "fst y = None \<longrightarrow>
         (\<exists>n. fst (snd y) = k + 1 + n \<and> step_n fmt n s1 = (None, snd (snd y)) \<and>
          halted (snd (snd y)) \<and> (\<forall>j<n. \<not> halted (snd (step_n fmt j s1))))"
        by (rule IH)
      show ?thesis
      proof
        assume "fst y = None"
        with ih obtain n where n: "fst (snd y) = k + 1 + n"
          "step_n fmt n s1 = (None, snd (snd y))" "halted (snd (snd y))"
          "\<forall>j<n. \<not> halted (snd (step_n fmt j s1))"
          by blast
        have "\<forall>j<Suc n. \<not> halted (snd (step_n fmt j s))"
        proof (intro allI impI)
          fix j assume j: "j < Suc n"
          show "\<not> halted (snd (step_n fmt j s))"
          proof (cases j)
            case 0
            with nh show ?thesis by simp
          next
            case (Suc i)
            with j n(4) have "\<not> halted (snd (step_n fmt i s1))" by simp
            with Suc show ?thesis
              using step_n_Suc_None [OF st'] by simp
          qed
        qed
        moreover have "step_n fmt (Suc n) s = (None, snd (snd y))"
          using step_n_Suc_None [OF st'] n(2) by simp
        moreover have "fst (snd y) = k + Suc n"
          using n(1) by simp
        ultimately show "\<exists>n. fst (snd y) = k + n \<and> step_n fmt n s = (None, snd (snd y)) \<and>
          halted (snd (snd y)) \<and> (\<forall>j<n. \<not> halted (snd (step_n fmt j s)))"
          using n(3) by blast
      qed
    qed
  qed
qed

lemma run_loop_count:
  assumes "run_loop fmt ss k s = Some y"
  shows "k \<le> fst (snd y)"
proof (rule run_loop.raw_induct
    [where P = "\<lambda>fmt ss k s y. k \<le> fst (snd y)"
     and fmt = fmt and single_step = ss and step_count = k and s = s and y = y])
  show "run_loop fmt ss k s = Some y" by (rule assms)
next
  fix loop :: "instr_format \<Rightarrow> bool \<Rightarrow> nat \<Rightarrow> CPU \<Rightarrow> (error option \<times> nat \<times> CPU) option"
  fix fmt ss k s y
  assume IH: "\<And>fmt ss k s y. loop fmt ss k s = Some y \<Longrightarrow> k \<le> fst (snd y)"
    and eq: "(if \<not> halted s
        then case step fmt (if ss then wait_for_enter k s else s) of
             (None, s') \<Rightarrow> loop fmt ss (k + 1) s'
           | (Some e, s') \<Rightarrow> Some (Some e, k, s')
        else Some (None, k, s)) = Some y"
  show "k \<le> fst (snd y)"
  proof (cases "halted s")
    case True
    with eq show ?thesis by auto
  next
    case nh: False
    obtain e s1 where st: "step fmt s = (e, s1)"
      by (cases "step fmt s")
    show ?thesis
    proof (cases e)
      case (Some err)
      with eq nh st show ?thesis by (auto simp: wait_for_enter_cpu)
    next
      case None
      with eq nh st have "loop fmt ss (k + 1) s1 = Some y" by (simp add: wait_for_enter_cpu)
      then have "k + 1 \<le> fst (snd y)" by (rule IH)
      then show ?thesis by simp
    qed
  qed
qed

subsection \<open>The example machine\<close>

lemma demo_decode_simps:
  "decode demo_format 10 = Some demo_ADD"
  "decode demo_format 11 = Some demo_STORE"
  "decode demo_format 12 = Some demo_HALT"
  "decode demo_format 13 = Some demo_LOAD"
  "decode demo_format 14 = Some demo_JUMP"
  "decode demo_format 15 = Some demo_SUB_if_P"
  by (simp_all add: demo_format_def demo_decode_def)

lemma demo_run_steps:
  "fst (step_n demo_format 3 (pc_put 0 (demo_cpu\<lparr>halted := False\<rparr>))) = None"
  "halted (snd (step_n demo_format 3 (pc_put 0 (demo_cpu\<lparr>halted := False\<rparr>))))"
  "\<forall>j<3. \<not> halted (snd (step_n demo_format j (pc_put 0 (demo_cpu\<lparr>halted := False\<rparr>))))"
proof -
  let ?s0 = "pc_put 0 (demo_cpu\<lparr>halted := False\<rparr>)"
  show "fst (step_n demo_format 3 ?s0) = None" by code_simp
  show "halted (snd (step_n demo_format 3 ?s0))" by code_simp
  have 0: "\<not> halted (snd (step_n demo_format 0 ?s0))" by code_simp
  have 1: "\<not> halted (snd (step_n demo_format (Suc 0) ?s0))" by code_simp
  have 2: "\<not> halted (snd (step_n demo_format (Suc (Suc 0)) ?s0))" by code_simp
  show "\<forall>j<3. \<not> halted (snd (step_n demo_format j ?s0))"
  proof (intro allI impI)
    fix j :: nat assume "j < 3"
    then have "j = 0 \<or> j = Suc 0 \<or> j = Suc (Suc 0)" by arith
    with 0 1 2 show "\<not> halted (snd (step_n demo_format j ?s0))" by blast
  qed
qed

lemma demo_run_final:
  "pc_get (snd (step_n demo_format 3 (pc_put 0 (demo_cpu\<lparr>halted := False\<rparr>)))) = 3"
  "memory (snd (step_n demo_format 3 (pc_put 0 (demo_cpu\<lparr>halted := False\<rparr>)))) 100 = Some 5"
  by code_simp+

section \<open>The claims of the specification\<close>

subsection \<open>The ALU\<close>

text \<open>
  C1. For each of ADD, SUB, MUL and DIV and all integers \<open>a\<close>, \<open>b\<close> (with \<open>b \<noteq> 0\<close> for
  DIV), \<^verbatim>\<open>exec\<close> returns the exact sum, difference, product or floor quotient (the
  quotient of the reals rounded toward negative infinity), paired with the flag of the
  result's sign: M if negative, Z if zero, P if positive.
\<close>

theorem alu_arithmetic_exact:
  "exec fmt ADD a b = Some (a + b, sign_flag fmt (a + b)) \<and>
   exec fmt SUB a b = Some (a - b, sign_flag fmt (a - b)) \<and>
   exec fmt MUL a b = Some (a * b, sign_flag fmt (a * b)) \<and>
   (b \<noteq> 0 \<longrightarrow> exec fmt DIV a b =
      Some (\<lfloor>real_of_int a / real_of_int b\<rfloor>, sign_flag fmt \<lfloor>real_of_int a / real_of_int b\<rfloor>))"
proof (intro conjI impI)
  show "exec fmt ADD a b = Some (a + b, sign_flag fmt (a + b))"
    by (rule exec_Inr) simp
  show "exec fmt SUB a b = Some (a - b, sign_flag fmt (a - b))"
    by (rule exec_Inr) simp
  show "exec fmt MUL a b = Some (a * b, sign_flag fmt (a * b))"
    by (rule exec_Inr) simp
next
  assume "b \<noteq> 0"
  then have "ALU_OPS DIV a b = Inr (a div b)"
    by simp
  then have "exec fmt DIV a b = Some (a div b, sign_flag fmt (a div b))"
    by (rule exec_Inr)
  moreover have "\<lfloor>real_of_int a / real_of_int b\<rfloor> = a div b"
    by (rule floor_divide_of_int_eq)
  ultimately show "exec fmt DIV a b =
      Some (\<lfloor>real_of_int a / real_of_int b\<rfloor>, sign_flag fmt \<lfloor>real_of_int a / real_of_int b\<rfloor>)"
    by simp
qed

text \<open>
  On the example format, \<open>-7 // 2\<close> is \<open>-4\<close> with flag M.
\<close>

theorem alu_arithmetic_exact_witness:
  "(2::int) \<noteq> 0 \<and> exec demo_format DIV (- 7) 2 = Some (- 4, CondFlag_M demo_format)"
  using alu_arithmetic_exact [of demo_format "- 7" 2]
  by (simp add: sign_flag_def)

text \<open>
  C2. For every integer \<open>a\<close>, \<^verbatim>\<open>exec(DIV, a, 0)\<close> returns the pair \<open>(0, V)\<close>: the division
  fault is caught inside the ALU, which returns a pair and raises nothing.
\<close>

theorem alu_div_by_zero: "exec fmt DIV a 0 = Some (0, CondFlag_V fmt)"
  by (rule exec_Inl [where e = ZeroDivisionError]) simp

subsection \<open>One step\<close>

text \<open>
  C3. When the instruction fetched at the program counter has a condition mask whose AND
  with the current condition flag is zero, the step completes, the program counter is
  one more than before, and the condition flag, the halted flag, the memory and every
  register other than the program counter are as before. The whole step is the
  notification followed by the write of the program counter: no operand is read (the
  register indices of the instruction are not even looked at, so none of them can raise)
  and the ALU is not invoked.
\<close>

theorem unsatisfied_step_only_advances_pc:
  assumes inv: "CPU_inv s"
    and fetch: "Memory_get (memory s) (pc_get s) = Inr w"
    and dec: "decode fmt w = Some ins"
    and unsat: "condition s AND cond ins = 0"
  shows "step fmt s =
           (None, pc_put (pc_get s + 1)
              (notify_all \<lparr>subject = CPU_view.truncate s, pc_addr = pc_get s,
                           instr_word = w, instr = ins\<rparr> s)) \<and>
         pc_get (snd (step fmt s)) = pc_get s + 1 \<and>
         condition (snd (step fmt s)) = condition s \<and>
         halted (snd (step fmt s)) = halted s \<and>
         memory (snd (step fmt s)) = memory s \<and>
         length (registers (snd (step fmt s))) = length (registers s) \<and>
         (\<forall>k. k \<noteq> 15 \<longrightarrow> registers (snd (step fmt s)) ! k = registers s ! k)"
proof -
  let ?ev = "\<lparr>subject = CPU_view.truncate s, pc_addr = pc_get s, instr_word = w, instr = ins\<rparr>"
  let ?s1 = "notify_all ?ev s"
  have inv1: "CPU_inv ?s1"
    using inv by (simp add: CPU_inv_notify_all)
  have "condition ?s1 AND cond ins = 0"
    using unsat by (simp add: notify_all_simps)
  then have "execute fmt (pc_get s) ins ?s1 = (None, pc_put (pc_get s + 1) ?s1)"
    by (rule execute_unsatisfied)
  with step_fetched [OF fetch dec]
  have eq: "step fmt s = (None, pc_put (pc_get s + 1) ?s1)"
    by simp
  have regs: "registers (pc_put (pc_get s + 1) ?s1) = (registers s)[15 := Register (pc_get s + 1)]"
    using inv1 by (simp add: pc_put_registers notify_all_simps)
  have "pc_get (pc_put (pc_get s + 1) ?s1) = pc_get s + 1"
    using inv1 by (rule pc_get_pc_put)
  with eq regs show ?thesis
    by (simp add: pc_put_simps notify_all_simps)
qed

text \<open>
  With the flag at Z, the instruction \<open>SUB r3, r1, r1\<close> under mask P at address 5 is skipped.
\<close>

theorem unsatisfied_step_witness:
  "CPU_inv ((demo_after 0 5)\<lparr>condition := 2\<rparr>) \<and>
   Memory_get (memory ((demo_after 0 5)\<lparr>condition := 2\<rparr>))
     (pc_get ((demo_after 0 5)\<lparr>condition := 2\<rparr>)) = Inr 15 \<and>
   decode demo_format 15 = Some demo_SUB_if_P \<and>
   condition ((demo_after 0 5)\<lparr>condition := 2\<rparr>) AND cond demo_SUB_if_P = 0 \<and>
   fst (step demo_format ((demo_after 0 5)\<lparr>condition := 2\<rparr>)) = None \<and>
   pc_get (snd (step demo_format ((demo_after 0 5)\<lparr>condition := 2\<rparr>))) = 6 \<and>
   condition (snd (step demo_format ((demo_after 0 5)\<lparr>condition := 2\<rparr>))) = 2 \<and>
   \<not> halted (snd (step demo_format ((demo_after 0 5)\<lparr>condition := 2\<rparr>))) \<and>
   registers (snd (step demo_format ((demo_after 0 5)\<lparr>condition := 2\<rparr>))) ! 3 = Register 0"
proof -
  let ?s = "(demo_after 0 5)\<lparr>condition := 2\<rparr>"
  have inv: "CPU_inv ?s" by code_simp
  have fetch: "Memory_get (memory ?s) (pc_get ?s) = Inr 15" by code_simp
  have dec: "decode demo_format 15 = Some demo_SUB_if_P" by (rule demo_decode_simps)
  have unsat: "condition ?s AND cond demo_SUB_if_P = 0" by code_simp
  have pc: "pc_get ?s = 5" by code_simp
  have c: "condition ?s = 2" by simp
  have h: "\<not> halted ?s" by code_simp
  have r: "registers ?s ! 3 = Register 0" by code_simp
  note th = unsatisfied_step_only_advances_pc [OF inv fetch dec unsat]
  from th have "fst (step demo_format ?s) = None"
    by simp
  moreover from th have "pc_get (snd (step demo_format ?s)) = pc_get ?s + 1"
    by blast
  with pc have "pc_get (snd (step demo_format ?s)) = 6"
    by simp
  moreover from th have "condition (snd (step demo_format ?s)) = condition ?s"
    by blast
  with c have "condition (snd (step demo_format ?s)) = 2"
    by simp
  moreover from th have "halted (snd (step demo_format ?s)) = halted ?s"
    by blast
  with h have "\<not> halted (snd (step demo_format ?s))"
    by simp
  moreover from th have "\<forall>k. k \<noteq> 15 \<longrightarrow> registers (snd (step demo_format ?s)) ! k = registers ?s ! k"
    by blast
  then have "registers (snd (step demo_format ?s)) ! 3 = registers ?s ! 3"
    by simp
  with r have "registers (snd (step demo_format ?s)) ! 3 = Register 0"
    by simp
  ultimately show ?thesis
    using inv fetch dec unsat by blast
qed

text \<open>
  C4. For a satisfied LOAD or STORE the effective address is the value of source
  register 1 plus the value of source register 2 plus the offset. STORE writes the value
  the target register holds at that moment (for register 15 the already advanced
  program counter) to memory at that address; LOAD reads memory at that address and
  puts the value read into the target register, where it is read back unless the target
  is the zero register. At an address outside the memory both raise the address error.
\<close>

theorem load_store_effective_address:
  assumes inv: "CPU_inv s"
    and fetch: "Memory_get (memory s) (pc_get s) = Inr w"
    and dec: "decode fmt w = Some ins"
    and sat: "condition s AND cond ins \<noteq> 0"
    and src1: "subscript (registers s) (reg_src1 ins) = Inr l"
    and src2: "subscript (registers s) (reg_src2 ins) = Inr r"
    and tgt: "subscript (registers s) (reg_target ins) = Inr t"
    and addr: "addr = Register_get (registers s ! l) + Register_get (registers s ! r) + offset ins"
    and cur: "current = (if t = 15 then pc_get s + 1 else Register_get (registers s ! t))"
  shows "(op ins = STORE \<and> addr \<in> dom (memory s) \<longrightarrow>
            fst (step fmt s) = None \<and>
            memory (snd (step fmt s)) = (memory s)(addr \<mapsto> current) \<and>
            registers (snd (step fmt s)) = (registers s)[15 := Register (pc_get s + 1)]) \<and>
         (\<forall>v. op ins = LOAD \<and> memory s addr = Some v \<longrightarrow>
            fst (step fmt s) = None \<and>
            memory (snd (step fmt s)) = memory s \<and>
            registers (snd (step fmt s)) =
              (registers s)[15 := Register (pc_get s + 1),
                            t := Register_put ((registers s)[15 := Register (pc_get s + 1)] ! t) v] \<and>
            (t \<noteq> 0 \<longrightarrow> Register_get (registers (snd (step fmt s)) ! t) = v)) \<and>
         ((op ins = STORE \<or> op ins = LOAD) \<and> addr \<notin> dom (memory s) \<longrightarrow>
            fst (step fmt s) = Some AddressError)"
proof -
  let ?ev = "\<lparr>subject = CPU_view.truncate s, pc_addr = pc_get s, instr_word = w, instr = ins\<rparr>"
  let ?s1 = "notify_all ?ev s"
  let ?s2 = "pc_put (pc_get s + 1) ?s1"
  note pre = step_satisfied_pre [OF inv, of "pc_get s + 1" ?ev]
  have t16: "t < 16"
    using subscript_bound [OF tgt] inv by (simp add: CPU_inv_length)
  have addr': "Register_get (registers ?s1 ! l) + (Register_get (registers ?s1 ! r) + offset ins) = addr"
    by (simp add: addr notify_all_simps)
  have sat1: "condition ?s1 AND cond ins \<noteq> 0"
    using sat by (simp add: notify_all_simps)
  have src1': "subscript (registers ?s1) (reg_src1 ins) = Inr l"
    using src1 by (simp add: notify_all_simps)
  have src2': "subscript (registers ?s1) (reg_src2 ins) = Inr r"
    using src2 by (simp add: notify_all_simps)
  have tgt2: "subscript (registers ?s2) (reg_target ins) = Inr t"
    using tgt by (simp add: pre(7))
  have cur2: "Register_get (registers ?s2 ! t) = current"
    using current_value [OF inv t16] by (simp add: pre(2) cur)
  have store: "step fmt s = if_STORE ins addr ?s2" if "op ins = STORE"
    using step_fetched [OF fetch dec] execute_STORE [OF sat1 src1' src2' that] addr'
    by simp
  have load: "step fmt s = if_LOAD ins addr ?s2" if "op ins = LOAD"
    using step_fetched [OF fetch dec] execute_LOAD [OF sat1 src1' src2' that] addr'
    by simp
  have A: "fst (step fmt s) = None \<and>
            memory (snd (step fmt s)) = (memory s)(addr \<mapsto> current) \<and>
            registers (snd (step fmt s)) = (registers s)[15 := Register (pc_get s + 1)]"
    if "op ins = STORE" and "addr \<in> dom (memory s)"
  proof -
    from that(2) obtain old where "memory s addr = Some old" by auto
    then have "Memory_put (memory ?s2) addr current = Inr ((memory s)(addr \<mapsto> current))"
      by (simp add: Memory_put_def pre(3))
    then have "if_STORE ins addr ?s2 = (None, ?s2\<lparr>memory := (memory s)(addr \<mapsto> current)\<rparr>)"
      using that(1) tgt2 cur2 by (simp add: if_STORE_def)
    with store [OF that(1)] show ?thesis
      by (simp add: pre(2))
  qed
  have B: "fst (step fmt s) = None \<and>
            memory (snd (step fmt s)) = memory s \<and>
            registers (snd (step fmt s)) =
              (registers s)[15 := Register (pc_get s + 1),
                            t := Register_put ((registers s)[15 := Register (pc_get s + 1)] ! t) v] \<and>
            (t \<noteq> 0 \<longrightarrow> Register_get (registers (snd (step fmt s)) ! t) = v)"
    if "op ins = LOAD" and "memory s addr = Some v" for v
  proof -
    have "Memory_get (memory ?s2) addr = Inr v"
      using that(2) by (simp add: Memory_get_def pre(3))
    then have "if_LOAD ins addr ?s2 = (None, reg_put t v ?s2)"
      using that(1) tgt2 by (simp add: if_LOAD_def)
    with load [OF that(1)] have eq: "step fmt s = (None, reg_put t v ?s2)"
      by simp
    have regs: "registers (reg_put t v ?s2) =
        (registers s)[15 := Register (pc_get s + 1),
                      t := Register_put ((registers s)[15 := Register (pc_get s + 1)] ! t) v]"
      by (simp add: reg_put_simps pre(2))
    have "Register_get (registers (reg_put t v ?s2) ! t) = v" if "t \<noteq> 0"
    proof -
      have "registers ?s2 ! t \<noteq> ZeroRegister"
        using CPU_inv_cell [OF pre(1) _ t16] that by simp
      then have "Register_put (registers ?s2 ! t) v = Register v"
        by (rule Register_put_cell)
      moreover have "t < length (registers ?s2)"
        using t16 CPU_inv_length [OF pre(1)] by simp
      ultimately show ?thesis
        by (simp add: reg_put_simps)
    qed
    with eq regs show ?thesis
      by (simp add: reg_put_simps pre(3))
  qed
  have C: "fst (step fmt s) = Some AddressError"
    if "op ins = STORE \<or> op ins = LOAD" and "addr \<notin> dom (memory s)"
  proof -
    from that(2) have none: "memory s addr = None" by auto
    from that(1) show ?thesis
    proof
      assume st: "op ins = STORE"
      have "Memory_put (memory ?s2) addr current = Inl AddressError"
        using none by (simp add: Memory_put_def pre(3))
      then have "if_STORE ins addr ?s2 = (Some AddressError, ?s2)"
        using st tgt2 cur2 by (simp add: if_STORE_def)
      with store [OF st] show ?thesis by simp
    next
      assume ld: "op ins = LOAD"
      have "Memory_get (memory ?s2) addr = Inl AddressError"
        using none by (simp add: Memory_get_def pre(3))
      then have "if_LOAD ins addr ?s2 = (Some AddressError, ?s2)"
        using ld tgt2 by (simp add: if_LOAD_def)
      with load [OF ld] show ?thesis by simp
    qed
  qed
  from A B C show ?thesis by blast
qed

text \<open>
  The example machine stores \<open>r1 = 5\<close> to address 100, loads it back into \<open>r2\<close>, and
  fails to load from the invalid address 95.
\<close>

theorem load_store_witness:
  "CPU_inv (demo_after 1 1) \<and>
   Memory_get (memory (demo_after 1 1)) (pc_get (demo_after 1 1)) = Inr 11 \<and>
   decode demo_format 11 = Some demo_STORE \<and>
   condition (demo_after 1 1) AND cond demo_STORE \<noteq> 0 \<and>
   subscript (registers (demo_after 1 1)) (reg_src1 demo_STORE) = Inr 0 \<and>
   subscript (registers (demo_after 1 1)) (reg_src2 demo_STORE) = Inr 0 \<and>
   subscript (registers (demo_after 1 1)) (reg_target demo_STORE) = Inr 1 \<and>
   op demo_STORE = STORE \<and> 100 \<in> dom (memory (demo_after 1 1)) \<and>
   fst (step demo_format (demo_after 1 1)) = None \<and>
   memory (snd (step demo_format (demo_after 1 1))) = (memory (demo_after 1 1))(100 \<mapsto> 5) \<and>
   CPU_inv (demo_after 2 3) \<and>
   Memory_get (memory (demo_after 2 3)) (pc_get (demo_after 2 3)) = Inr 13 \<and>
   decode demo_format 13 = Some demo_LOAD \<and>
   op demo_LOAD = LOAD \<and> memory (demo_after 2 3) 100 = Some 5 \<and>
   fst (step demo_format (demo_after 2 3)) = None \<and>
   Register_get (registers (snd (step demo_format (demo_after 2 3))) ! 2) = 5 \<and>
   CPU_inv (demo_after 0 3) \<and> 95 \<notin> dom (memory (demo_after 0 3)) \<and>
   fst (step demo_format (demo_after 0 3)) = Some AddressError"
proof -
  let ?A = "demo_after 1 1" and ?B = "demo_after 2 3" and ?C = "demo_after 0 3"
  have invA: "CPU_inv ?A" by code_simp
  have fetchA: "Memory_get (memory ?A) (pc_get ?A) = Inr 11" by code_simp
  have decA: "decode demo_format 11 = Some demo_STORE" by (rule demo_decode_simps)
  have satA: "condition ?A AND cond demo_STORE \<noteq> 0" by code_simp
  have src1A: "subscript (registers ?A) (reg_src1 demo_STORE) = Inr 0" by code_simp
  have src2A: "subscript (registers ?A) (reg_src2 demo_STORE) = Inr 0" by code_simp
  have tgtA: "subscript (registers ?A) (reg_target demo_STORE) = Inr 1" by code_simp
  have addrA: "100 = Register_get (registers ?A ! 0) + Register_get (registers ?A ! 0)
      + offset demo_STORE" by code_simp
  have curA: "5 = (if (1::nat) = 15 then pc_get ?A + 1 else Register_get (registers ?A ! 1))"
    by code_simp
  have opA: "op demo_STORE = STORE" by (simp add: demo_STORE_def)
  have "memory ?A 100 = Some 0" by code_simp
  then have domA: "100 \<in> dom (memory ?A)" by (rule domI)
  note thA = load_store_effective_address
    [OF invA fetchA decA satA src1A src2A tgtA addrA curA]
  from thA opA domA have resA: "fst (step demo_format ?A) = None \<and>
      memory (snd (step demo_format ?A)) = (memory ?A)(100 \<mapsto> 5)"
    by blast
  have invB: "CPU_inv ?B" by code_simp
  have fetchB: "Memory_get (memory ?B) (pc_get ?B) = Inr 13" by code_simp
  have decB: "decode demo_format 13 = Some demo_LOAD" by (rule demo_decode_simps)
  have satB: "condition ?B AND cond demo_LOAD \<noteq> 0" by code_simp
  have src1B: "subscript (registers ?B) (reg_src1 demo_LOAD) = Inr 1" by code_simp
  have src2B: "subscript (registers ?B) (reg_src2 demo_LOAD) = Inr 0" by code_simp
  have tgtB: "subscript (registers ?B) (reg_target demo_LOAD) = Inr 2" by code_simp
  have addrB: "100 = Register_get (registers ?B ! 1) + Register_get (registers ?B ! 0)
      + offset demo_LOAD" by code_simp
  have curB: "0 = (if (2::nat) = 15 then pc_get ?B + 1 else Register_get (registers ?B ! 2))"
    by code_simp
  have opB: "op demo_LOAD = LOAD" by (simp add: demo_LOAD_def)
  have memB: "memory ?B 100 = Some 5" by code_simp
  note thB = load_store_effective_address
    [OF invB fetchB decB satB src1B src2B tgtB addrB curB]
  from thB opB memB have "fst (step demo_format ?B) = None \<and>
      ((2::nat) \<noteq> 0 \<longrightarrow> Register_get (registers (snd (step demo_format ?B)) ! 2) = 5)"
    by blast
  then have resB: "fst (step demo_format ?B) = None \<and>
      Register_get (registers (snd (step demo_format ?B)) ! 2) = 5"
    by simp
  have invC: "CPU_inv ?C" by code_simp
  have fetchC: "Memory_get (memory ?C) (pc_get ?C) = Inr 13" by code_simp
  have satC: "condition ?C AND cond demo_LOAD \<noteq> 0" by code_simp
  have src1C: "subscript (registers ?C) (reg_src1 demo_LOAD) = Inr 1" by code_simp
  have src2C: "subscript (registers ?C) (reg_src2 demo_LOAD) = Inr 0" by code_simp
  have tgtC: "subscript (registers ?C) (reg_target demo_LOAD) = Inr 2" by code_simp
  have addrC: "95 = Register_get (registers ?C ! 1) + Register_get (registers ?C ! 0)
      + offset demo_LOAD" by code_simp
  have curC: "0 = (if (2::nat) = 15 then pc_get ?C + 1 else Register_get (registers ?C ! 2))"
    by code_simp
  have "memory ?C 95 = None" by code_simp
  then have domC: "95 \<notin> dom (memory ?C)" by (simp add: domIff)
  note thC = load_store_effective_address
    [OF invC fetchC decB satC src1C src2C tgtC addrC curC]
  from thC opB domC have resC: "fst (step demo_format ?C) = Some AddressError"
    by blast
  from invA fetchA decA satA src1A src2A tgtA opA domA resA
    invB fetchB decB opB memB resB invC domC resC
  show ?thesis by blast
qed

text \<open>
  C5. A satisfied ADD, SUB, MUL or DIV puts the ALU result into the target register
  (where it is read back unless the target is the zero register) and sets the condition
  flag of the CPU to the flag the ALU derived. A step that fetches a LOAD, STORE or
  HALT, satisfied or not, completed or not, leaves the condition flag as it was.
\<close>

theorem arithmetic_sets_flag_others_keep_it:
  assumes fetch: "Memory_get (memory s) (pc_get s) = Inr w"
    and dec: "decode fmt w = Some ins"
  shows "((op ins = ADD \<or> op ins = SUB \<or> op ins = MUL \<or> op ins = DIV) \<and>
          CPU_inv s \<and> condition s AND cond ins \<noteq> 0 \<and>
          subscript (registers s) (reg_src1 ins) = Inr l \<and>
          subscript (registers s) (reg_src2 ins) = Inr r \<and>
          subscript (registers s) (reg_target ins) = Inr t \<and>
          exec fmt (op ins) (Register_get (registers s ! l))
            (Register_get (registers s ! r) + offset ins) = Some (result_val, cond_code) \<longrightarrow>
            fst (step fmt s) = None \<and>
            registers (snd (step fmt s)) =
              (registers s)[15 := Register (pc_get s + 1),
                 t := Register_put ((registers s)[15 := Register (pc_get s + 1)] ! t) result_val] \<and>
            (t \<noteq> 0 \<longrightarrow> Register_get (registers (snd (step fmt s)) ! t) = result_val) \<and>
            condition (snd (step fmt s)) = cond_code) \<and>
         (op ins = LOAD \<or> op ins = STORE \<or> op ins = HALT \<longrightarrow>
            condition (snd (step fmt s)) = condition s)"
proof (intro conjI impI)
  assume "op ins = LOAD \<or> op ins = STORE \<or> op ins = HALT"
  then show "condition (snd (step fmt s)) = condition s"
    using step_fetched [OF fetch dec] by (simp add: execute_condition notify_all_simps)
next
  assume a: "(op ins = ADD \<or> op ins = SUB \<or> op ins = MUL \<or> op ins = DIV) \<and>
          CPU_inv s \<and> condition s AND cond ins \<noteq> 0 \<and>
          subscript (registers s) (reg_src1 ins) = Inr l \<and>
          subscript (registers s) (reg_src2 ins) = Inr r \<and>
          subscript (registers s) (reg_target ins) = Inr t \<and>
          exec fmt (op ins) (Register_get (registers s ! l))
            (Register_get (registers s ! r) + offset ins) = Some (result_val, cond_code)"
  let ?ev = "\<lparr>subject = CPU_view.truncate s, pc_addr = pc_get s, instr_word = w, instr = ins\<rparr>"
  let ?s2 = "pc_put (pc_get s + 1) (notify_all ?ev s)"
  from a have arith: "op ins = ADD \<or> op ins = SUB \<or> op ins = MUL \<or> op ins = DIV"
    and inv: "CPU_inv s"
    and sat: "condition s AND cond ins \<noteq> 0"
    and src1: "subscript (registers s) (reg_src1 ins) = Inr l"
    and src2: "subscript (registers s) (reg_src2 ins) = Inr r"
    and tgt: "subscript (registers s) (reg_target ins) = Inr t"
    and ex: "exec fmt (op ins) (Register_get (registers s ! l))
            (Register_get (registers s ! r) + offset ins) = Some (result_val, cond_code)"
    by blast+
  note pre = step_satisfied_pre [OF inv, of "pc_get s + 1" ?ev]
  have t16: "t < 16"
    using subscript_bound [OF tgt] inv by (simp add: CPU_inv_length)
  have eq: "step fmt s = (None, (reg_put t result_val ?s2)\<lparr>condition := cond_code\<rparr>)"
    by (rule step_arith [OF inv fetch dec sat src1 src2 tgt arith ex])
  then show "fst (step fmt s) = None"
    by simp
  from eq show "condition (snd (step fmt s)) = cond_code"
    by simp
  from eq show regs: "registers (snd (step fmt s)) =
              (registers s)[15 := Register (pc_get s + 1),
                 t := Register_put ((registers s)[15 := Register (pc_get s + 1)] ! t) result_val]"
    by (simp add: reg_put_simps pre(2))
  assume "t \<noteq> 0"
  then have "registers ?s2 ! t \<noteq> ZeroRegister"
    using CPU_inv_cell [OF pre(1) _ t16] by simp
  then have "Register_put ((registers s)[15 := Register (pc_get s + 1)] ! t) result_val
      = Register result_val"
    by (simp add: Register_put_cell pre(2))
  moreover have "t < length ((registers s)[15 := Register (pc_get s + 1)])"
    using t16 inv by (simp add: CPU_inv_length)
  ultimately show "Register_get (registers (snd (step fmt s)) ! t) = result_val"
    by (simp add: regs)
qed

text \<open>
  The first instruction of the example program sets \<open>r1\<close> to 5 and the flag from ALWAYS
  to P; the STORE behind it leaves the flag at P.
\<close>

theorem arithmetic_sets_flag_witness:
  "Memory_get (memory (demo_after 0 0)) (pc_get (demo_after 0 0)) = Inr 10 \<and>
   decode demo_format 10 = Some demo_ADD \<and>
   op demo_ADD = ADD \<and> CPU_inv (demo_after 0 0) \<and>
   condition (demo_after 0 0) AND cond demo_ADD \<noteq> 0 \<and>
   subscript (registers (demo_after 0 0)) (reg_src1 demo_ADD) = Inr 0 \<and>
   subscript (registers (demo_after 0 0)) (reg_src2 demo_ADD) = Inr 0 \<and>
   subscript (registers (demo_after 0 0)) (reg_target demo_ADD) = Inr 1 \<and>
   exec demo_format (op demo_ADD) (Register_get (registers (demo_after 0 0) ! 0))
     (Register_get (registers (demo_after 0 0) ! 0) + offset demo_ADD) = Some (5, 4) \<and>
   fst (step demo_format (demo_after 0 0)) = None \<and>
   Register_get (registers (snd (step demo_format (demo_after 0 0))) ! 1) = 5 \<and>
   condition (demo_after 0 0) = 15 \<and>
   condition (snd (step demo_format (demo_after 0 0))) = 4 \<and>
   Memory_get (memory (demo_after 1 1)) (pc_get (demo_after 1 1)) = Inr 11 \<and>
   decode demo_format 11 = Some demo_STORE \<and>
   op demo_STORE = STORE \<and>
   condition (demo_after 1 1) = 4 \<and>
   condition (snd (step demo_format (demo_after 1 1))) = 4"
proof -
  let ?A = "demo_after 0 0" and ?B = "demo_after 1 1"
  have fetchA: "Memory_get (memory ?A) (pc_get ?A) = Inr 10" by code_simp
  have decA: "decode demo_format 10 = Some demo_ADD" by (rule demo_decode_simps)
  have opA: "op demo_ADD = ADD" by (simp add: demo_ADD_def)
  have invA: "CPU_inv ?A" by code_simp
  have satA: "condition ?A AND cond demo_ADD \<noteq> 0" by code_simp
  have src1A: "subscript (registers ?A) (reg_src1 demo_ADD) = Inr 0" by code_simp
  have src2A: "subscript (registers ?A) (reg_src2 demo_ADD) = Inr 0" by code_simp
  have tgtA: "subscript (registers ?A) (reg_target demo_ADD) = Inr 1" by code_simp
  have exA: "exec demo_format (op demo_ADD) (Register_get (registers ?A ! 0))
     (Register_get (registers ?A ! 0) + offset demo_ADD) = Some (5, 4)" by code_simp
  have cA: "condition ?A = 15" by code_simp
  note thA = arithmetic_sets_flag_others_keep_it
    [OF fetchA decA, of 0 0 1 5 4]
  from thA opA invA satA src1A src2A tgtA exA
  have "fst (step demo_format ?A) = None \<and>
      ((1::nat) \<noteq> 0 \<longrightarrow> Register_get (registers (snd (step demo_format ?A)) ! 1) = 5) \<and>
      condition (snd (step demo_format ?A)) = 4"
    by blast
  then have resA: "fst (step demo_format ?A) = None \<and>
      Register_get (registers (snd (step demo_format ?A)) ! 1) = 5 \<and>
      condition (snd (step demo_format ?A)) = 4"
    by simp
  have fetchB: "Memory_get (memory ?B) (pc_get ?B) = Inr 11" by code_simp
  have decB: "decode demo_format 11 = Some demo_STORE" by (rule demo_decode_simps)
  have opB: "op demo_STORE = STORE" by (simp add: demo_STORE_def)
  have cB: "condition ?B = 4" by code_simp
  note thB = arithmetic_sets_flag_others_keep_it [OF fetchB decB, of 0 0 1 0 0]
  from thB opB have "condition (snd (step demo_format ?B)) = condition ?B"
    by blast
  with cB have resB: "condition (snd (step demo_format ?B)) = 4"
    by simp
  from fetchA decA opA invA satA src1A src2A tgtA exA resA cA fetchB decB opB cB resB
  show ?thesis by blast
qed

text \<open>
  C6. When a HALT executes under a satisfied predicate, the step completes with halted
  set and the program counter at the address of the HALT plus one, and the loop of
  \<^verbatim>\<open>run\<close> that made this step returns right after it, having counted one more step.
\<close>

theorem halt_stops_the_run:
  assumes inv: "CPU_inv s"
    and fetch: "Memory_get (memory s) (pc_get s) = Inr w"
    and dec: "decode fmt w = Some ins"
    and sat: "condition s AND cond ins \<noteq> 0"
    and src1: "subscript (registers s) (reg_src1 ins) = Inr l"
    and src2: "subscript (registers s) (reg_src2 ins) = Inr r"
    and halt: "op ins = HALT"
  shows "fst (step fmt s) = None \<and>
         halted (snd (step fmt s)) \<and>
         pc_get (snd (step fmt s)) = pc_get s + 1 \<and>
         (\<not> halted s \<longrightarrow>
            run_loop fmt single_step step_count s =
              Some (None, step_count + 1, snd (step fmt s)))"
proof -
  let ?ev = "\<lparr>subject = CPU_view.truncate s, pc_addr = pc_get s, instr_word = w, instr = ins\<rparr>"
  let ?s1 = "notify_all ?ev s"
  let ?s2 = "pc_put (pc_get s + 1) ?s1"
  note pre = step_satisfied_pre [OF inv, of "pc_get s + 1" ?ev]
  have sat1: "condition ?s1 AND cond ins \<noteq> 0"
    using sat by (simp add: notify_all_simps)
  have src1': "subscript (registers ?s1) (reg_src1 ins) = Inr l"
    using src1 by (simp add: notify_all_simps)
  have src2': "subscript (registers ?s1) (reg_src2 ins) = Inr r"
    using src2 by (simp add: notify_all_simps)
  have eq: "step fmt s = (None, ?s2\<lparr>halted := True\<rparr>)"
    using step_fetched [OF fetch dec] execute_HALT [OF sat1 src1' src2' halt]
    by simp
  have "pc_get ?s2 = pc_get s + 1"
    using CPU_inv_notify_all [of ?ev s] inv by (simp add: pc_get_pc_put)
  then have pc: "pc_get (?s2\<lparr>halted := True\<rparr>) = pc_get s + 1"
    by (simp add: pc_get_def)
  have loop: "run_loop fmt single_step step_count s =
      Some (None, step_count + 1, ?s2\<lparr>halted := True\<rparr>)" if "\<not> halted s"
  proof -
    have "run_loop fmt single_step step_count s =
        run_loop fmt single_step (step_count + 1) (?s2\<lparr>halted := True\<rparr>)"
      using that eq by (rule run_loop_step)
    also have "\<dots> = Some (None, step_count + 1, ?s2\<lparr>halted := True\<rparr>)"
      by (rule run_loop_halted) simp
    finally show ?thesis .
  qed
  from eq pc loop show ?thesis by simp
qed

text \<open>
  The HALT at address 2 of the example program, as the third step of a run.
\<close>

theorem halt_witness:
  "CPU_inv (demo_after 2 2) \<and>
   Memory_get (memory (demo_after 2 2)) (pc_get (demo_after 2 2)) = Inr 12 \<and>
   decode demo_format 12 = Some demo_HALT \<and>
   condition (demo_after 2 2) AND cond demo_HALT \<noteq> 0 \<and>
   subscript (registers (demo_after 2 2)) (reg_src1 demo_HALT) = Inr 0 \<and>
   subscript (registers (demo_after 2 2)) (reg_src2 demo_HALT) = Inr 0 \<and>
   op demo_HALT = HALT \<and>
   \<not> halted (demo_after 2 2) \<and>
   fst (step demo_format (demo_after 2 2)) = None \<and>
   halted (snd (step demo_format (demo_after 2 2))) \<and>
   pc_get (snd (step demo_format (demo_after 2 2))) = 3 \<and>
   run_loop demo_format False 2 (demo_after 2 2) =
     Some (None, 3, snd (step demo_format (demo_after 2 2)))"
proof -
  let ?s = "demo_after 2 2"
  have inv: "CPU_inv ?s" by code_simp
  have fetch: "Memory_get (memory ?s) (pc_get ?s) = Inr 12" by code_simp
  have dec: "decode demo_format 12 = Some demo_HALT" by (rule demo_decode_simps)
  have sat: "condition ?s AND cond demo_HALT \<noteq> 0" by code_simp
  have src1: "subscript (registers ?s) (reg_src1 demo_HALT) = Inr 0" by code_simp
  have src2: "subscript (registers ?s) (reg_src2 demo_HALT) = Inr 0" by code_simp
  have halt: "op demo_HALT = HALT" by (simp add: demo_HALT_def)
  have nh: "\<not> halted ?s" by code_simp
  have pc: "pc_get ?s = 2" by code_simp
  note th = halt_stops_the_run [OF inv fetch dec sat src1 src2 halt, of False 2]
  from th have "pc_get (snd (step demo_format ?s)) = pc_get ?s + 1"
    by blast
  with pc have "pc_get (snd (step demo_format ?s)) = 3"
    by simp
  moreover from th nh have "run_loop demo_format False 2 ?s =
      Some (None, 2 + 1, snd (step demo_format ?s))"
    by blast
  then have "run_loop demo_format False 2 ?s = Some (None, 3, snd (step demo_format ?s))"
    by simp
  moreover from th have "fst (step demo_format ?s) = None \<and> halted (snd (step demo_format ?s))"
    by blast
  ultimately show ?thesis
    using inv fetch dec sat src1 src2 halt nh by blast
qed

text \<open>
  C8. In a step that has fetched and decoded its instruction, the listeners receive
  exactly one new event, carrying the program counter before execution, the fetched
  word and the decoded instruction; the CPU they see through it is the CPU as it was
  before the step, and everything the step executes runs on the CPU after the
  notification. This holds whether the execution then completes or raises.
\<close>

theorem step_event_published_before_execution:
  assumes fetch: "Memory_get (memory s) (pc_get s) = Inr w"
    and dec: "decode fmt w = Some ins"
  shows "notified (snd (step fmt s)) =
           notified s @
             [\<lparr>subject = \<lparr>memory = memory s, registers = registers s,
                          condition = condition s, halted = halted s\<rparr>,
               pc_addr = pc_get s, instr_word = w, instr = ins\<rparr>] \<and>
         step fmt s =
           execute fmt (pc_get s) ins
             (s\<lparr>notified := notified s @
                [\<lparr>subject = \<lparr>memory = memory s, registers = registers s,
                             condition = condition s, halted = halted s\<rparr>,
                  pc_addr = pc_get s, instr_word = w, instr = ins\<rparr>]\<rparr>)"
proof -
  have view: "CPU_view.truncate s =
      \<lparr>memory = memory s, registers = registers s, condition = condition s, halted = halted s\<rparr>"
    by (simp add: CPU_view.truncate_def)
  from step_fetched [OF fetch dec] show ?thesis
    by (simp add: execute_notified notify_all_simps view notify_all_def)
qed

text \<open>
  The first step of the example machine publishes the event for address 0.
\<close>

theorem step_event_witness:
  "Memory_get (memory (demo_after 0 0)) (pc_get (demo_after 0 0)) = Inr 10 \<and>
   decode demo_format 10 = Some demo_ADD \<and>
   notified (demo_after 0 0) = [] \<and>
   notified (snd (step demo_format (demo_after 0 0))) =
     [\<lparr>subject = \<lparr>memory = memory (demo_after 0 0), registers = registers (demo_after 0 0),
                  condition = 15, halted = False\<rparr>,
       pc_addr = 0, instr_word = 10, instr = demo_ADD\<rparr>]"
proof -
  let ?s = "demo_after 0 0"
  have fetch: "Memory_get (memory ?s) (pc_get ?s) = Inr 10" by code_simp
  have dec: "decode demo_format 10 = Some demo_ADD" by (rule demo_decode_simps)
  have n: "notified ?s = []" by code_simp
  have pc: "pc_get ?s = 0" by code_simp
  have c: "condition ?s = 15" by code_simp
  have h: "halted ?s = False" by code_simp
  note th = step_event_published_before_execution [OF fetch dec]
  from th have "notified (snd (step demo_format ?s)) =
           notified ?s @
             [\<lparr>subject = \<lparr>memory = memory ?s, registers = registers ?s,
                          condition = condition ?s, halted = halted ?s\<rparr>,
               pc_addr = pc_get ?s, instr_word = 10, instr = demo_ADD\<rparr>]"
    by blast
  then have "notified (snd (step demo_format ?s)) =
     [\<lparr>subject = \<lparr>memory = memory ?s, registers = registers ?s,
                  condition = 15, halted = False\<rparr>,
       pc_addr = 0, instr_word = 10, instr = demo_ADD\<rparr>]"
    by (simp only: n pc c h append_Nil)
  with fetch dec n show ?thesis by blast
qed

text \<open>
  C10. A satisfied ADD, SUB, MUL or DIV whose target register index is 15 leaves the
  program counter equal to the ALU result: the write of the result replaces the
  incremented program counter, so the instruction is a jump to the computed address.
\<close>

theorem arithmetic_into_pc_is_jump:
  assumes inv: "CPU_inv s"
    and fetch: "Memory_get (memory s) (pc_get s) = Inr w"
    and dec: "decode fmt w = Some ins"
    and sat: "condition s AND cond ins \<noteq> 0"
    and src1: "subscript (registers s) (reg_src1 ins) = Inr l"
    and src2: "subscript (registers s) (reg_src2 ins) = Inr r"
    and arith: "op ins = ADD \<or> op ins = SUB \<or> op ins = MUL \<or> op ins = DIV"
    and tgt: "reg_target ins = 15"
    and ex: "exec fmt (op ins) (Register_get (registers s ! l))
               (Register_get (registers s ! r) + offset ins) = Some (result_val, cond_code)"
  shows "fst (step fmt s) = None \<and> pc_get (snd (step fmt s)) = result_val"
proof -
  let ?ev = "\<lparr>subject = CPU_view.truncate s, pc_addr = pc_get s, instr_word = w, instr = ins\<rparr>"
  let ?s2 = "pc_put (pc_get s + 1) (notify_all ?ev s)"
  note pre = step_satisfied_pre [OF inv, of "pc_get s + 1" ?ev]
  have tgt': "subscript (registers s) (reg_target ins) = Inr 15"
    using subscript_15 [OF inv] tgt by simp
  have eq: "step fmt s = (None, (reg_put 15 result_val ?s2)\<lparr>condition := cond_code\<rparr>)"
    by (rule step_arith [OF inv fetch dec sat src1 src2 tgt' arith ex])
  have "pc_get (pc_put result_val ?s2) = result_val"
    using pre(1) by (rule pc_get_pc_put)
  then have "pc_get ((reg_put 15 result_val ?s2)\<lparr>condition := cond_code\<rparr>) = result_val"
    by (simp add: pc_get_def pc_put_def)
  with eq show ?thesis by simp
qed

text \<open>
  At address 4 of the example program, \<open>ADD r15, r1, r0, 2\<close> with \<open>r1 = 5\<close> jumps to
  address 7.
\<close>

theorem jump_witness:
  "CPU_inv (demo_after 1 4) \<and>
   Memory_get (memory (demo_after 1 4)) (pc_get (demo_after 1 4)) = Inr 14 \<and>
   decode demo_format 14 = Some demo_JUMP \<and>
   condition (demo_after 1 4) AND cond demo_JUMP \<noteq> 0 \<and>
   subscript (registers (demo_after 1 4)) (reg_src1 demo_JUMP) = Inr 1 \<and>
   subscript (registers (demo_after 1 4)) (reg_src2 demo_JUMP) = Inr 0 \<and>
   op demo_JUMP = ADD \<and> reg_target demo_JUMP = 15 \<and>
   exec demo_format (op demo_JUMP) (Register_get (registers (demo_after 1 4) ! 1))
     (Register_get (registers (demo_after 1 4) ! 0) + offset demo_JUMP) = Some (7, 4) \<and>
   pc_get (demo_after 1 4) = 4 \<and>
   fst (step demo_format (demo_after 1 4)) = None \<and>
   pc_get (snd (step demo_format (demo_after 1 4))) = 7"
proof -
  let ?s = "demo_after 1 4"
  have inv: "CPU_inv ?s" by code_simp
  have fetch: "Memory_get (memory ?s) (pc_get ?s) = Inr 14" by code_simp
  have dec: "decode demo_format 14 = Some demo_JUMP" by (rule demo_decode_simps)
  have sat: "condition ?s AND cond demo_JUMP \<noteq> 0" by code_simp
  have src1: "subscript (registers ?s) (reg_src1 demo_JUMP) = Inr 1" by code_simp
  have src2: "subscript (registers ?s) (reg_src2 demo_JUMP) = Inr 0" by code_simp
  have opj: "op demo_JUMP = ADD" by (simp add: demo_JUMP_def)
  then have arith: "op demo_JUMP = ADD \<or> op demo_JUMP = SUB \<or> op demo_JUMP = MUL \<or>
      op demo_JUMP = DIV" by simp
  have tgt: "reg_target demo_JUMP = 15" by (simp add: demo_JUMP_def)
  have ex: "exec demo_format (op demo_JUMP) (Register_get (registers ?s ! 1))
     (Register_get (registers ?s ! 0) + offset demo_JUMP) = Some (7, 4)" by code_simp
  have pc: "pc_get ?s = 4" by code_simp
  note th = arithmetic_into_pc_is_jump [OF inv fetch dec sat src1 src2 arith tgt ex]
  with inv fetch dec sat src1 src2 opj tgt ex pc show ?thesis by blast
qed

subsection \<open>The run loop\<close>

text \<open>
  C7. \<^verbatim>\<open>run(from_addr, single_step)\<close> is the loop started on the CPU with halted cleared
  and the program counter set to \<open>from_addr\<close>; this reset leaves the condition flag, the
  memory and the registers 0 to 14 as they were. The run returns normally with \<open>n\<close>
  steps counted and final CPU \<open>s'\<close> exactly when \<open>n\<close> invocations of \<^verbatim>\<open>step\<close> in a row
  complete and lead to \<open>s'\<close>, \<open>s'\<close> is halted, and no CPU before it in that row was.
\<close>

theorem run_resets_then_steps_until_halted:
  assumes inv: "CPU_inv s"
    and s0: "s0 = s\<lparr>halted := False, registers := (registers s)[15 := Register from_addr]\<rparr>"
  shows "run fmt from_addr single_step s = run_loop fmt single_step 0 s0 \<and>
         \<not> halted s0 \<and> pc_get s0 = from_addr \<and>
         condition s0 = condition s \<and> memory s0 = memory s \<and>
         (\<forall>k<15. registers s0 ! k = registers s ! k) \<and>
         (run fmt from_addr single_step s = Some (None, n, s') \<longleftrightarrow>
            step_n fmt n s0 = (None, s') \<and> halted s' \<and>
            (\<forall>j<n. \<not> halted (snd (step_n fmt j s0))))"
proof -
  have run: "run fmt from_addr single_step s = run_loop fmt single_step 0 s0"
    using run_reset [OF inv] by (simp add: run_def s0)
  have frame: "\<not> halted s0 \<and> pc_get s0 = from_addr \<and>
         condition s0 = condition s \<and> memory s0 = memory s \<and>
         (\<forall>k<15. registers s0 ! k = registers s ! k)"
    using CPU_inv_length [OF inv] by (simp add: s0 pc_get_def)
  have "step_n fmt n s0 = (None, s') \<and> halted s' \<and>
            (\<forall>j<n. \<not> halted (snd (step_n fmt j s0)))"
    if "run_loop fmt single_step 0 s0 = Some (None, n, s')"
    using run_loop_returned [OF that] by simp
  moreover have "run_loop fmt single_step 0 s0 = Some (None, n, s')"
    if "step_n fmt n s0 = (None, s') \<and> halted s' \<and>
            (\<forall>j<n. \<not> halted (snd (step_n fmt j s0)))"
    using run_loop_reaches [of fmt n s0 s' single_step 0] that by simp
  ultimately have "run_loop fmt single_step 0 s0 = Some (None, n, s') \<longleftrightarrow>
            step_n fmt n s0 = (None, s') \<and> halted s' \<and>
            (\<forall>j<n. \<not> halted (snd (step_n fmt j s0)))"
    by blast
  with run frame show ?thesis by simp
qed

text \<open>
  The end-to-end scenario of the specification: after \<^verbatim>\<open>run(0)\<close> the example machine is
  halted after three steps, the program counter is 3 and address 100 holds 5.
\<close>

theorem run_witness:
  "CPU_inv demo_cpu \<and>
   run demo_format 0 False demo_cpu =
     Some (None, 3, snd (step_n demo_format 3 (pc_put 0 (demo_cpu\<lparr>halted := False\<rparr>)))) \<and>
   halted (snd (step_n demo_format 3 (pc_put 0 (demo_cpu\<lparr>halted := False\<rparr>)))) \<and>
   pc_get (snd (step_n demo_format 3 (pc_put 0 (demo_cpu\<lparr>halted := False\<rparr>)))) = 3 \<and>
   memory (snd (step_n demo_format 3 (pc_put 0 (demo_cpu\<lparr>halted := False\<rparr>)))) 100 = Some 5"
proof -
  let ?s0 = "pc_put 0 (demo_cpu\<lparr>halted := False\<rparr>)"
  let ?s' = "snd (step_n demo_format 3 ?s0)"
  have inv: "CPU_inv demo_cpu" by code_simp
  have s0: "?s0 = demo_cpu\<lparr>halted := False, registers := (registers demo_cpu)[15 := Register 0]\<rparr>"
    by (rule run_reset [OF inv])
  have steps: "step_n demo_format 3 ?s0 = (None, ?s')"
    using demo_run_steps(1) by (simp add: prod_eq_iff)
  note th = run_resets_then_steps_until_halted [OF inv s0, of demo_format False 3 ?s']
  from th steps demo_run_steps(2,3)
  have "run demo_format 0 False demo_cpu = Some (None, 3, ?s')"
    by blast
  with inv demo_run_steps(2) demo_run_final show ?thesis by blast
qed

text \<open>
  C9. \<^verbatim>\<open>run\<close> makes its first step whatever the halted flag was at the call: its result is
  that of one \<^verbatim>\<open>step\<close> on the reset CPU followed by the rest of the loop, a CPU that was
  already halted runs exactly as one that was not, and a run that returns normally has
  counted at least one step.
\<close>

theorem run_executes_at_least_one_step:
  "run fmt from_addr single_step s =
     (case step fmt (pc_put from_addr (s\<lparr>halted := False\<rparr>)) of
        (None, s1) \<Rightarrow> run_loop fmt single_step 1 s1
      | (Some e, s1) \<Rightarrow> Some (Some e, 0, s1)) \<and>
   run fmt from_addr single_step (s\<lparr>halted := True\<rparr>) = run fmt from_addr single_step s \<and>
   (run fmt from_addr single_step s = Some (None, n, s') \<longrightarrow> 1 \<le> n)"
proof (intro conjI impI)
  have nh: "\<not> halted (pc_put from_addr (s\<lparr>halted := False\<rparr>))"
    by (simp add: pc_put_simps)
  show first: "run fmt from_addr single_step s =
     (case step fmt (pc_put from_addr (s\<lparr>halted := False\<rparr>)) of
        (None, s1) \<Rightarrow> run_loop fmt single_step 1 s1
      | (Some e, s1) \<Rightarrow> Some (Some e, 0, s1))"
    unfolding run_def using nh
    by (subst run_loop.simps) (simp add: wait_for_enter_cpu split: prod.splits option.splits)
  show "run fmt from_addr single_step (s\<lparr>halted := True\<rparr>) = run fmt from_addr single_step s"
    by (simp add: run_def)
  assume ret: "run fmt from_addr single_step s = Some (None, n, s')"
  obtain e s1 where st: "step fmt (pc_put from_addr (s\<lparr>halted := False\<rparr>)) = (e, s1)"
    by (cases "step fmt (pc_put from_addr (s\<lparr>halted := False\<rparr>))")
  show "1 \<le> n"
  proof (cases e)
    case None
    with first st ret have "run_loop fmt single_step 1 s1 = Some (None, n, s')" by simp
    from run_loop_count [OF this] show ?thesis by simp
  next
    case (Some err)
    with first st ret show ?thesis by simp
  qed
qed

text \<open>
  The example machine, halted before the call, still runs its three steps.
\<close>

theorem run_one_step_witness:
  "run demo_format 0 False (demo_cpu\<lparr>halted := True\<rparr>) =
     Some (None, 3, snd (step_n demo_format 3 (pc_put 0 (demo_cpu\<lparr>halted := False\<rparr>)))) \<and>
   halted (demo_cpu\<lparr>halted := True\<rparr>) \<and> (1::nat) \<le> 3"
proof -
  let ?s0 = "pc_put 0 (demo_cpu\<lparr>halted := False\<rparr>)"
  let ?s' = "snd (step_n demo_format 3 ?s0)"
  have steps: "step_n demo_format 3 ?s0 = (None, ?s')"
    using demo_run_steps(1) by (simp add: prod_eq_iff)
  have "run_loop demo_format False 0 ?s0 = Some (None, 0 + 3, ?s')"
    by (rule run_loop_reaches [OF steps demo_run_steps(2,3)])
  then have ret: "run demo_format 0 False (demo_cpu\<lparr>halted := True\<rparr>) = Some (None, 3, ?s')"
    by (simp add: run_def)
  note th = run_executes_at_least_one_step [of demo_format 0 False "demo_cpu\<lparr>halted := True\<rparr>" 3 ?s']
  from th ret have "(1::nat) \<le> 3" by blast
  with ret show ?thesis by simp
qed

end
